theory Spec2Isabelle
  imports Main "HOL-Library.Word" "HOL-Library.Multiset"
begin

unbundle bit_operations_syntax

section \<open>Data model of shuffle.c\<close>

type_synonym u8 = "8 word"
type_synonym u32 = "32 word"

text \<open>
  The process ends either through \<open>exit(1)\<close> after a diagnostic (\<open>perror\<close> or
  \<open>fprintf(stderr, ...)\<close>), or it runs into behaviour the C standard leaves undefined
  (an array access out of bounds, a division by zero).  Both are values of the model.
\<close>

datatype diagnostic = Perror string | Stderr string

datatype fault = Exit diagnostic nat | Undefined_Behaviour

text \<open>
  What one \<open>open\<close>/\<open>read\<close> of \<open>/dev/urandom\<close> does: the open fails, the read fails
  (\<open>rv = -1\<close>), or the read delivers bytes.
\<close>

datatype urandom = Open_Fails | Read_Fails | Read_Gives "u8 list"

text \<open>
  The static variables of \<open>secure_random_bit\<close>, together with the device: \<open>device s k\<close> is
  what the \<open>k\<close>-th open/read does, \<open>reads s\<close> counts the opens made so far.
\<close>

record entropy =
  rand_buf :: "u32 list"
  max_winx :: u32
  winx :: u32
  bcnt :: u32
  device :: "nat \<Rightarrow> urandom"
  reads :: nat

definition BUFSZ :: nat where
  "BUFSZ = 256"

definition MAX_RAND_BITS :: nat where
  "MAX_RAND_BITS = 28"

definition DECK_SIZE :: nat where
  "DECK_SIZE = 52"

text \<open>The statics are zero-initialised when the program starts.\<close>

definition initial :: "(nat \<Rightarrow> urandom) \<Rightarrow> entropy" where
  "initial dev = \<lparr>rand_buf = replicate BUFSZ 0, max_winx = 0, winx = 0, bcnt = 0,
     device = dev, reads = 0\<rparr>"

section \<open>The entropy buffer\<close>

text \<open>
  \<open>read\<close> writes bytes over an array of 32-bit words.  The model fixes the little-endian
  layout of the machines the program runs on: byte \<open>k\<close> of a word holds its bits
  \<open>8k .. 8k+7\<close>.
\<close>

fun le_word :: "u8 list \<Rightarrow> u32" where
  "le_word [] = 0"
| "le_word (b # bs) = ucast b OR push_bit 8 (le_word bs)"

definition bytes_of :: "u32 \<Rightarrow> u8 list" where
  "bytes_of w = map (\<lambda>k. ucast (drop_bit (8 * k) w)) [0..<4]"

text \<open>
  \<open>store_bytes bs buf\<close> is the buffer after \<open>bs\<close> has been written to its start: whole
  words are replaced, a word that receives fewer than four bytes keeps its upper bytes,
  the words behind keep their content.
\<close>

fun store_bytes :: "u8 list \<Rightarrow> u32 list \<Rightarrow> u32 list" where
  "store_bytes bs [] = []"
| "store_bytes bs (w # ws) =
     (if bs = [] then w # ws
      else le_word (take 4 (bs @ drop (length bs) (bytes_of w))) # store_bytes (drop 4 bs) ws)"

text \<open>\<open>open("/dev/urandom", O_RDONLY)\<close>: a descriptor, or \<open>-1\<close>.\<close>

definition sys_open :: "urandom \<Rightarrow> int" where
  "sys_open d = (case d of Open_Fails \<Rightarrow> - 1 | _ \<Rightarrow> 3)"

text \<open>
  \<open>read(fd, rand_buf, sizeof(rand_buf))\<close>: the return value and the buffer afterwards.
  The kernel delivers at most the \<open>4 * BUFSZ\<close> bytes asked for.
\<close>

definition sys_read :: "urandom \<Rightarrow> u32 list \<Rightarrow> int \<times> u32 list" where
  "sys_read d buf =
     (case d of
        Read_Gives bs \<Rightarrow> (int (length (take (4 * BUFSZ) bs)), store_bytes (take (4 * BUFSZ) bs) buf)
      | _ \<Rightarrow> (- 1, buf))"

text \<open>The body of \<open>if (winx == max_winx)\<close> in \<open>secure_random_bit\<close>.\<close>

definition refill :: "entropy \<Rightarrow> (fault + unit) \<times> entropy" where
  "refill s =
     (let d = device s (reads s);
          s1 = s\<lparr>reads := reads s + 1\<rparr>
      in if sys_open d < 0 then (Inl (Exit (Perror ''open'') 1), s1)
         else
           let (rv, buf) = sys_read d (rand_buf s1);
               s2 = s1\<lparr>rand_buf := buf\<rparr>
           in if rv < 4 then (Inl (Exit (Perror ''read'') 1), s2)
              else (Inr (), s2\<lparr>max_winx := word_of_int (rv div 4), winx := 0, bcnt := 0\<rparr>))"

definition secure_random_bit :: "entropy \<Rightarrow> (fault + u32) \<times> entropy" where
  "secure_random_bit s =
     (case (if winx s = max_winx s then refill s else (Inr (), s)) of
        (Inl e, s1) \<Rightarrow> (Inl e, s1)
      | (Inr _, s1) \<Rightarrow>
          if unat (winx s1) < BUFSZ \<and> unat (winx s1) < length (rand_buf s1) then
            let w = rand_buf s1 ! unat (winx s1);
                b = w AND 1;
                s2 = s1\<lparr>rand_buf := (rand_buf s1)[unat (winx s1) := drop_bit 1 w],
                        bcnt := bcnt s1 + 1\<rparr>;
                s3 = (if bcnt s2 = 32 then s2\<lparr>winx := winx s2 + 1, bcnt := 0\<rparr> else s2)
            in (Inr b, s3)
          else (Inl Undefined_Behaviour, s1))"

section \<open>The sampler\<close>

text \<open>
  A call returns the state it leaves together with a value or the fault that ended the
  process.  A loop that may run for ever is a partial function: \<open>None\<close> stands for a run
  that never ends.  \<open>maxv\<close> is the parameter \<open>max\<close>.
\<close>

text \<open>The loop \<open>while (rmax < maxv)\<close>; its result is \<open>(r, rmax)\<close>.\<close>

partial_function (option) grow_loop ::
  "u32 \<Rightarrow> u32 \<Rightarrow> u32 \<Rightarrow> entropy \<Rightarrow> ((fault + u32 \<times> u32) \<times> entropy) option" where
  "grow_loop maxv r rmax s =
     (if rmax < maxv then
        (case secure_random_bit s of
           (Inl e, s1) \<Rightarrow> Some (Inl e, s1)
         | (Inr b, s1) \<Rightarrow>
             grow_loop maxv (if b = 1 then r OR rmax else r) (push_bit 1 rmax) s1)
      else Some (Inr (r, rmax), s))"

text \<open>The loop \<open>while (rmax - defect <= r)\<close>; its result is \<open>(r, rmax)\<close>.\<close>

partial_function (option) reject_loop ::
  "u32 \<Rightarrow> u32 \<Rightarrow> u32 \<Rightarrow> u32 \<Rightarrow> entropy \<Rightarrow> ((fault + u32 \<times> u32) \<times> entropy) option" where
  "reject_loop maxv r rmax defect s =
     (if rmax - defect \<le> r then
        (case secure_random_bit s of
           (Inl e, s1) \<Rightarrow> Some (Inl e, s1)
         | (Inr b, s1) \<Rightarrow>
             (let r1 = (if b = 1 then r OR rmax else r)
              in if rmax < push_bit MAX_RAND_BITS 1
                 then reject_loop maxv r1 (push_bit 1 rmax) (push_bit 1 rmax mod maxv) s1
                 else reject_loop maxv (drop_bit 1 r1) rmax defect s1))
      else Some (Inr (r, rmax), s))"

definition secure_random :: "u32 \<Rightarrow> entropy \<Rightarrow> ((fault + u32) \<times> entropy) option" where
  "secure_random maxv s =
     (if maxv = 0 then Some (Inl (Exit (Stderr ''secure_random() called with max == 0\<newline>'') 1), s)
      else
        (case grow_loop maxv 0 1 s of
           None \<Rightarrow> None
         | Some (Inl e, s1) \<Rightarrow> Some (Inl e, s1)
         | Some (Inr (r, rmax), s1) \<Rightarrow>
             (case reject_loop maxv r rmax (rmax mod maxv) s1 of
                None \<Rightarrow> None
              | Some (Inl e, s2) \<Rightarrow> Some (Inl e, s2)
              | Some (Inr (r2, rmax2), s2) \<Rightarrow>
                  if rmax2 div maxv = 0 then Some (Inl Undefined_Behaviour, s2)
                  else Some (Inr (r2 div (rmax2 div maxv)), s2))))"

declare grow_loop.simps [code] reject_loop.simps [code]

section \<open>The shuffle\<close>

text \<open>The struct \<open>Card\<close>.\<close>

record card =
  suit :: char
  rank :: char


text \<open>
  The loop of \<open>shuffle_deck\<close>, \<open>for (i = DECK_SIZE - 1; i > 0; i--)\<close>.  The deck is the
  array behind the pointer; an index outside of it is undefined behaviour.
\<close>

function shuffle_loop ::
  "u32 \<Rightarrow> card list \<Rightarrow> entropy \<Rightarrow> ((fault + card list) \<times> entropy) option" where
  "shuffle_loop i deck s =
     (if 0 < i then
        (case secure_random (i + 1) s of
           None \<Rightarrow> None
         | Some (Inl e, s1) \<Rightarrow> Some (Inl e, s1)
         | Some (Inr j, s1) \<Rightarrow>
             if unat i < length deck \<and> unat j < length deck
             then shuffle_loop (i - 1) (deck[unat i := deck ! unat j, unat j := deck ! unat i]) s1
             else Some (Inl Undefined_Behaviour, s1))
      else Some (Inr deck, s))"
  by pat_completeness auto
termination
  by (relation "measure (\<lambda>(i, deck, s). unat i)") (auto simp: measure_unat)

declare shuffle_loop.simps [simp del]

definition shuffle_deck :: "card list \<Rightarrow> entropy \<Rightarrow> ((fault + card list) \<times> entropy) option" where
  "shuffle_deck deck s = shuffle_loop (word_of_nat (DECK_SIZE - 1)) deck s"

section \<open>Notions for stating the properties\<close>

text \<open>The \<open>n\<close> low bits of a word, least significant first, each as the word 0 or 1.\<close>

definition bits_of :: "nat \<Rightarrow> u32 \<Rightarrow> u32 list" where
  "bits_of n w = map (\<lambda>i. of_bool (bit w i)) [0..<n]"

text \<open>
  The bits of a sequence of words in the order of the buffer: bit 0 of word 0, bit 1 of
  word 0, ..., bit 31 of word 0, bit 0 of word 1, ...
\<close>

definition word_bits :: "u32 list \<Rightarrow> u32 list" where
  "word_bits ws = map (\<lambda>i. of_bool (bit (ws ! (i div 32)) (i mod 32))) [0..<32 * length ws]"

text \<open>
  The states the static variables can be in: the buffer has its \<open>BUFSZ\<close> words, the word
  index is within the valid words, the bit count is below the word size.
\<close>

definition valid_state :: "entropy \<Rightarrow> bool" where
  "valid_state s \<longleftrightarrow> length (rand_buf s) = BUFSZ \<and> winx s \<le> max_winx s \<and> unat (max_winx s) \<le> BUFSZ \<and> bcnt s < 32"

text \<open>
  The bits still buffered: the remaining bits of the current word (it has been shifted
  right \<open>bcnt\<close> times) and all bits of the valid words behind it.
\<close>

definition pending :: "entropy \<Rightarrow> u32 list" where
  "pending s = (if winx s < max_winx s then
      bits_of (32 - unat (bcnt s)) (rand_buf s ! unat (winx s)) @
      word_bits (take (unat (max_winx s) - Suc (unat (winx s))) (drop (Suc (unat (winx s))) (rand_buf s)))
    else [])"

text \<open>The bits of a sequence of bytes: bit 0 of byte 0, ..., bit 7 of byte 0, bit 0 of byte 1, ...\<close>

definition byte_bits :: "u8 list \<Rightarrow> u32 list" where
  "byte_bits bs = map (\<lambda>i. of_bool (bit (bs ! (i div 8)) (i mod 8))) [0..<8 * length bs]"

text \<open>\<open>n\<close> successive calls of \<open>secure_random_bit\<close>, with the bits they return.\<close>

fun draw :: "nat \<Rightarrow> entropy \<Rightarrow> (fault + u32 list) \<times> entropy" where
  "draw 0 s = (Inr [], s)"
| "draw (Suc n) s =
     (case secure_random_bit s of
        (Inl e, s1) \<Rightarrow> (Inl e, s1)
      | (Inr b, s1) \<Rightarrow>
          (case draw n s1 of
             (Inl e, s2) \<Rightarrow> (Inl e, s2)
           | (Inr bs, s2) \<Rightarrow> (Inr (b # bs), s2)))"

text \<open>The number whose binary digits are the given bits, least significant first.\<close>

fun bits_value :: "u32 list \<Rightarrow> nat" where
  "bits_value [] = 0"
| "bits_value (b # bs) = unat b + 2 * bits_value bs"

text \<open>
  The candidate \<open>r\<close> of range \<open>rmax\<close> stays rejected at every width up to the cap when
  only 1 bits follow: at width \<open>k\<close> the candidate is then \<open>2^k - (rmax - r)\<close>, and it is
  rejected when it is at least \<open>2^k - 2^k mod max\<close>.
\<close>

definition always_rejected :: "u32 \<Rightarrow> u32 \<Rightarrow> u32 \<Rightarrow> bool" where
  "always_rejected maxv r rmax \<longleftrightarrow>
     (\<forall>k\<in>{0..MAX_RAND_BITS}. unat rmax \<le> 2 ^ k \<longrightarrow> unat rmax - unat r \<le> 2 ^ k mod unat maxv)"

text \<open>
  What the rejection loop, entered with \<open>r\<close> and \<open>rmax\<close> in state \<open>s\<close>, has done when it
  ends with \<open>y\<close> after \<open>k\<close> draws.  The state is the one the \<open>k\<close> draws leave.  Either a
  draw ended the process, or the loop returned \<open>r'\<close> and \<open>rmax'\<close>: then all bits drawn but
  the last are 1, the width has grown by one per draw up to the cap
  (\<open>rmax' = min (2^MAX_RAND_BITS) (rmax * 2^k)\<close>), and \<open>r'\<close> is the candidate assembled
  from \<open>r\<close> and the bits drawn, placed above \<open>rmax\<close>, with one low bit dropped for every
  draw made at the cap.
\<close>

definition rejection_outcome ::
  "u32 \<Rightarrow> u32 \<Rightarrow> entropy \<Rightarrow> (fault + u32 \<times> u32) \<times> entropy \<Rightarrow> nat \<Rightarrow> bool" where
  "rejection_outcome r rmax s y k \<longleftrightarrow>
     snd y = snd (draw k s) \<and>
     (case fst y of
        Inl e \<Rightarrow> fst (draw k s) = Inl e
      | Inr (r', rmax') \<Rightarrow>
          (\<exists>bits. fst (draw k s) = Inr bits \<and> (\<forall>i. Suc i < k \<longrightarrow> bits ! i = 1) \<and>
             unat rmax' = min (2 ^ MAX_RAND_BITS) (unat rmax * 2 ^ k) \<and>
             unat r' = (unat r + unat rmax * bits_value bits) div (unat rmax * 2 ^ k div unat rmax')))"




section \<open>Concrete devices\<close>

text \<open>A device that delivers two words at every read.\<close>

definition two_words :: "nat \<Rightarrow> urandom" where
  "two_words k = Read_Gives [0x0D, 0, 0, 0, 0xFF, 0, 0, 0x80]"

text \<open>A device that delivers one word and two more bytes at every read.\<close>

definition six_bytes :: "nat \<Rightarrow> urandom" where
  "six_bytes k = Read_Gives [0x81, 0, 0, 0x01, 0xFF, 0xFF]"

text \<open>A device that delivers four bytes with all bits set at every read.\<close>

definition ones :: "nat \<Rightarrow> urandom" where
  "ones k = Read_Gives [0xFF, 0xFF, 0xFF, 0xFF]"

text \<open>A device that delivers the byte \<open>b\<close> and three zero bytes at every read.\<close>

definition first_byte :: "u8 \<Rightarrow> nat \<Rightarrow> urandom" where
  "first_byte b k = Read_Gives [b, 0, 0, 0]"

text \<open>A device that delivers 36 bits 1 and then 28 bits 0 at every read.\<close>

definition cap_device :: "nat \<Rightarrow> urandom" where
  "cap_device k = Read_Gives [0xFF, 0xFF, 0xFF, 0xFF, 0x0F, 0, 0, 0]"

section \<open>Properties of the entropy buffer\<close>

lemma bits_of_0 [simp]: "bits_of 0 w = []"
  by (simp add: bits_of_def)

lemma bits_of_Suc: "bits_of (Suc n) w = (w AND 1) # bits_of n (drop_bit 1 w)"
proof -
  have "[0..<Suc n] = 0 # map Suc [0..<n]"
    by (simp add: upt_conv_Cons map_Suc_upt del: upt_Suc)
  then show ?thesis
    by (simp add: bits_of_def bit_drop_bit_eq and_one_eq mod_2_eq_odd bit_0 comp_def del: upt_Suc)
qed

lemma length_bits_of [simp]: "length (bits_of n w) = n"
  by (simp add: bits_of_def)

lemma word_bits_Nil [simp]: "word_bits [] = []"
  by (simp add: word_bits_def)

lemma word_bits_Cons: "word_bits (w # ws) = bits_of 32 w @ word_bits ws"
proof (rule nth_equalityI)
  show "length (word_bits (w # ws)) = length (bits_of 32 w @ word_bits ws)"
    by (simp add: word_bits_def)
next
  fix i assume "i < length (word_bits (w # ws))"
  then have i: "i < 32 + 32 * length ws" by (simp add: word_bits_def)
  show "word_bits (w # ws) ! i = (bits_of 32 w @ word_bits ws) ! i"
  proof (cases "i < 32")
    case True
    then show ?thesis using i by (simp add: word_bits_def nth_append bits_of_def)
  next
    case False
    then obtain j where j: "i = j + 32" by (metis le_add_diff_inverse2 not_less)
    with i have "j < 32 * length ws" by simp
    moreover have "(j + 32) div 32 = Suc (j div 32)" by simp
    ultimately show ?thesis using j
      by (simp add: word_bits_def nth_append bits_of_def)
  qed
qed

lemma length_word_bits [simp]: "length (word_bits ws) = 32 * length ws"
  by (simp add: word_bits_def)



lemma unat_Suc_less: "(w::u32) < m \<Longrightarrow> unat (w + 1) = Suc (unat w)"
proof -
  assume "w < m"
  then have "unat w < unat m" by (simp add: word_less_nat_alt)
  moreover have "unat m < 2 ^ 32" using unsigned_less [of m] by simp
  ultimately have "unat w + 1 < 2 ^ 32" by simp
  then show ?thesis by (simp add: unat_word_ariths)
qed

lemma secure_random_bit_buffered:
  assumes "valid_state s" "winx s < max_winx s"
  shows "\<exists>s'. secure_random_bit s = (Inr (hd (pending s)), s') \<and> valid_state s' \<and>
           pending s' = tl (pending s) \<and> device s' = device s \<and> reads s' = reads s"
proof -
  define i where "i = unat (winx s)"
  define c where "c = unat (bcnt s)"
  define m where "m = unat (max_winx s)"
  define buf where "buf = rand_buf s"
  define w where "w = buf ! i"
  define rest where "rest = word_bits (take (m - Suc i) (drop (Suc i) buf))"
  have im: "i < m" using assms(2) by (simp add: i_def m_def word_less_nat_alt)
  have m: "m \<le> 256" and len: "length buf = 256" and c: "c < 32" and b32: "bcnt s < 32"
    using assms(1) by (simp_all add: valid_state_def m_def buf_def c_def BUFSZ_def word_less_nat_alt)
  have neq: "winx s \<noteq> max_winx s" using assms(2) by auto
  have c1: "unat (bcnt s + 1) = Suc c"
    using b32 by (simp add: unat_Suc_less c_def)
  have i1: "unat (winx s + 1) = Suc i"
    using assms(2) by (simp add: unat_Suc_less i_def)
  have "32 - c = Suc (31 - c)" using c by simp
  then have pend: "pending s = (w AND 1) # bits_of (31 - c) (drop_bit 1 w) @ rest"
    using assms(2) by (simp add: pending_def bits_of_Suc w_def rest_def buf_def i_def c_def m_def)
  show ?thesis
  proof (cases "bcnt s + 1 = 32")
    case True
    then have c31: "c = 31" using c1 by simp
    define s' where "s' = s\<lparr>rand_buf := buf[i := drop_bit 1 w], bcnt := 0, winx := winx s + 1\<rparr>"
    have step: "secure_random_bit s = (Inr (w AND 1), s')"
      using neq im m len True
      by (simp add: secure_random_bit_def Let_def s'_def i_def w_def buf_def BUFSZ_def)
    have le: "winx s' \<le> max_winx s'"
      using im i1 by (simp add: s'_def word_le_nat_alt i_def m_def)
    have valid': "valid_state s'"
      using assms(1) le by (simp add: valid_state_def s'_def buf_def)
    have "pending s' = rest"
    proof (cases "Suc i < m")
      case True
      then have lt: "winx s' < max_winx s'"
        using i1 by (simp add: s'_def word_less_nat_alt m_def)
      have "m - Suc i = Suc (m - Suc (Suc i))" using True by simp
      moreover have "drop (Suc i) buf = buf ! Suc i # drop (Suc (Suc i)) buf"
        using True m len by (simp add: Cons_nth_drop_Suc)
      ultimately have "rest = bits_of 32 (buf ! Suc i) @ word_bits (take (m - Suc (Suc i)) (drop (Suc (Suc i)) buf))"
        by (simp add: rest_def word_bits_Cons)
      then show ?thesis
        using lt i1 by (simp add: pending_def s'_def m_def)
    next
      case False
      then have "m = Suc i" using im by simp
      then have "\<not> winx s' < max_winx s'" "rest = []"
        using i1 by (simp_all add: s'_def word_less_nat_alt m_def rest_def)
      then show ?thesis by (simp add: pending_def)
    qed
    then show ?thesis
      using step valid' pend c31 by (simp add: s'_def)
  next
    case False
    define s' where "s' = s\<lparr>rand_buf := buf[i := drop_bit 1 w], bcnt := bcnt s + 1\<rparr>"
    have step: "secure_random_bit s = (Inr (w AND 1), s')"
      using neq im m len False
      by (simp add: secure_random_bit_def Let_def s'_def i_def w_def buf_def BUFSZ_def)
    have "Suc c \<noteq> 32"
    proof
      assume "Suc c = 32"
      then have "unat (bcnt s + 1) = unat (32 :: u32)" using c1 by simp
      then show False using False by (simp only: word_unat_eq_iff [symmetric])
    qed
    then have c': "Suc c < 32" using c by simp
    then have b': "bcnt s + 1 < 32" using c1 by (simp add: word_less_nat_alt)
    have valid': "valid_state s'"
      using assms(1) b' by (simp add: valid_state_def s'_def buf_def)
    have "pending s' = bits_of (31 - c) (drop_bit 1 w) @ rest"
      using assms(2) im m len c1 by (simp add: pending_def s'_def rest_def i_def [symmetric] m_def [symmetric] w_def)
    then show ?thesis
      using step valid' pend by (simp add: s'_def)
  qed
qed

lemma pending_Nil_iff:
  assumes "valid_state s"
  shows "pending s = [] \<longleftrightarrow> winx s = max_winx s"
proof -
  have "unat (bcnt s) < 32" using assms by (simp add: valid_state_def word_less_nat_alt)
  then have "bits_of (32 - unat (bcnt s)) w \<noteq> []" for w
    by (metis length_bits_of length_0_conv zero_less_diff less_numeral_extra(3))
  moreover have "winx s \<le> max_winx s" using assms by (simp add: valid_state_def)
  ultimately show ?thesis by (auto simp: pending_def)
qed

lemma draw_pending:
  assumes "valid_state s" "n \<le> length (pending s)"
  shows "\<exists>s'. draw n s = (Inr (take n (pending s)), s') \<and> valid_state s' \<and>
           pending s' = drop n (pending s) \<and> device s' = device s \<and> reads s' = reads s"
  using assms
proof (induction n arbitrary: s)
  case 0
  then show ?case by simp
next
  case (Suc n)
  then have ne: "pending s \<noteq> []" by auto
  then have "winx s < max_winx s" by (auto simp: pending_def split: if_splits)
  from secure_random_bit_buffered [OF Suc.prems(1) this]
  obtain s1 where s1: "secure_random_bit s = (Inr (hd (pending s)), s1)" "valid_state s1"
    "pending s1 = tl (pending s)" "device s1 = device s" "reads s1 = reads s"
    by blast
  have "n \<le> length (pending s1)" using Suc.prems(2) s1(3) by simp
  from Suc.IH [OF s1(2) this]
  obtain s' where s': "draw n s1 = (Inr (take n (pending s1)), s')" "valid_state s'"
    "pending s' = drop n (pending s1)" "device s' = device s1" "reads s' = reads s1"
    by blast
  have "take (Suc n) (pending s) = hd (pending s) # take n (tl (pending s))"
    using ne by (cases "pending s") simp_all
  moreover have "drop (Suc n) (pending s) = drop n (tl (pending s))"
    using ne by (cases "pending s") simp_all
  ultimately show ?case using s1 s' by simp
qed

lemma length_store_bytes [simp]: "length (store_bytes bs buf) = length buf"
  by (induction bs buf rule: store_bytes.induct) simp_all

lemma refill_gives:
  assumes "device s (reads s) = Read_Gives bs" "4 \<le> length bs"
  shows "refill s = (Inr (), s\<lparr>reads := reads s + 1,
           rand_buf := store_bytes (take (4 * BUFSZ) bs) (rand_buf s),
           max_winx := of_nat (length (take (4 * BUFSZ) bs) div 4), winx := 0, bcnt := 0\<rparr>)"
proof -
  have "word_of_int (int n div 4) = (word_of_nat (n div 4) :: u32)" for n
  proof -
    have "int n div 4 = int (n div 4)" by simp
    then show ?thesis by (simp only: of_int_of_nat_eq)
  qed
  then show ?thesis
    using assms by (simp add: refill_def sys_open_def sys_read_def Let_def BUFSZ_def)
qed

lemma secure_random_bit_refill:
  assumes "winx s = max_winx s" "refill s = (Inr (), s1)" "winx s1 \<noteq> max_winx s1"
  shows "secure_random_bit s = secure_random_bit s1"
  using assms by (simp add: secure_random_bit_def)


lemma max_winx_buffered:
  assumes "winx s \<noteq> max_winx s"
  shows "max_winx (snd (secure_random_bit s)) = max_winx s"
  using assms by (simp add: secure_random_bit_def Let_def)

lemma max_winx_draw_pending:
  assumes "valid_state s" "n \<le> length (pending s)"
  shows "max_winx (snd (draw n s)) = max_winx s"
  using assms
proof (induction n arbitrary: s)
  case 0
  then show ?case by simp
next
  case (Suc n)
  then have ne: "pending s \<noteq> []" by auto
  then have lt: "winx s < max_winx s" by (auto simp: pending_def split: if_splits)
  from secure_random_bit_buffered [OF Suc.prems(1) this]
  obtain s1 where s1: "secure_random_bit s = (Inr (hd (pending s)), s1)" "valid_state s1"
    "pending s1 = tl (pending s)"
    by blast
  have "n \<le> length (pending s1)" using Suc.prems(2) s1(3) by simp
  from Suc.IH [OF s1(2) this] have "max_winx (snd (draw n s1)) = max_winx s1" .
  moreover have "max_winx s1 = max_winx s"
    using max_winx_buffered [of s] lt s1(1) by simp
  ultimately show ?case using s1(1) by (auto split: prod.splits sum.splits)
qed

lemma reads_secure_random_bit:
  "reads (snd (secure_random_bit s)) = (if winx s = max_winx s then reads s + 1 else reads s)"
  by (auto simp add: secure_random_bit_def refill_def Let_def split: prod.splits sum.splits)

lemma secure_random_bit_refilled:
  assumes "valid_state s" "winx s = max_winx s" "device s (reads s) = Read_Gives bs"
    "4 \<le> length bs"
  defines "m \<equiv> length (take (4 * BUFSZ) bs) div 4"
    and "buf \<equiv> store_bytes (take (4 * BUFSZ) bs) (rand_buf s)"
  shows "\<exists>b s'. secure_random_bit s = (Inr b, s') \<and> b # pending s' = word_bits (take m buf) \<and>
           valid_state s' \<and> device s' = device s \<and> reads s' = reads s + 1 \<and>
           unat (max_winx s') = m"
proof -
  define s1 where "s1 = s\<lparr>reads := reads s + 1, rand_buf := buf, max_winx := of_nat m,
    winx := 0, bcnt := 0\<rparr>"
  have r: "refill s = (Inr (), s1)"
    using refill_gives [OF assms(3,4)] by (simp add: s1_def m_def buf_def)
  have m: "1 \<le> m" "m \<le> 256" using assms(4) by (simp_all add: m_def BUFSZ_def)
  then have um: "unat (of_nat m :: u32) = m" by (simp add: unat_of_nat)
  have len: "length buf = 256" using assms(1) by (simp add: buf_def valid_state_def BUFSZ_def)
  have v1: "valid_state s1"
    using m um len by (simp add: valid_state_def s1_def BUFSZ_def)
  have lt: "winx s1 < max_winx s1"
    using m um by (simp add: s1_def word_less_nat_alt)
  obtain w ws where buf: "buf = w # ws" using len by (cases buf) simp_all
  obtain k where k: "m = Suc k" using m by (cases m) simp_all
  have p1: "pending s1 = word_bits (take m buf)"
    using lt um by (simp add: pending_def s1_def buf k word_bits_Cons)
  from secure_random_bit_buffered [OF v1 lt]
  obtain s' where s': "secure_random_bit s1 = (Inr (hd (pending s1)), s')" "valid_state s'"
    "pending s' = tl (pending s1)" "device s' = device s1" "reads s' = reads s1"
    by blast
  have ne: "pending s1 \<noteq> []" using pending_Nil_iff [OF v1] lt by simp
  have "secure_random_bit s = secure_random_bit s1"
    using secure_random_bit_refill [OF assms(2) r] lt by simp
  moreover have "max_winx s' = max_winx s1"
    using max_winx_buffered [of s1] lt s'(1) by simp
  ultimately show ?thesis
    using s' p1 ne um by (auto simp: s1_def)
qed

lemma draw_block:
  assumes "valid_state s" "winx s = max_winx s" "device s (reads s) = Read_Gives bs"
    "4 \<le> length bs" "0 < n" "n \<le> 32 * m"
    and m: "m = length (take (4 * BUFSZ) bs) div 4"
    and buf: "buf = store_bytes (take (4 * BUFSZ) bs) (rand_buf s)"
  shows "\<exists>s'. draw n s = (Inr (take n (word_bits (take m buf))), s') \<and> valid_state s' \<and>
           pending s' = drop n (word_bits (take m buf)) \<and> device s' = device s \<and>
           reads s' = reads s + 1 \<and> unat (max_winx s') = m"
proof -
  from secure_random_bit_refilled [OF assms(1-4)]
  obtain b s1 where s1: "secure_random_bit s = (Inr b, s1)"
    "b # pending s1 = word_bits (take m buf)" "valid_state s1" "device s1 = device s"
    "reads s1 = reads s + 1" "unat (max_winx s1) = m"
    unfolding m buf by blast
  obtain k where k: "n = Suc k" using assms(5) by (cases n) simp_all
  have "length (b # pending s1) = 32 * length (take m buf)"
    using s1(2) by simp
  moreover have "length (take m buf) \<le> m" by simp
  ultimately have "Suc (length (pending s1)) \<le> 32 * m" by simp
  have lenb: "length buf = 256" using assms(1) by (simp add: buf valid_state_def BUFSZ_def)
  have "m \<le> 256" by (simp add: m BUFSZ_def)
  then have "length (take m buf) = m" using lenb by simp
  then have "Suc (length (pending s1)) = 32 * m"
    using \<open>length (b # pending s1) = 32 * length (take m buf)\<close> by simp
  then have kl: "k \<le> length (pending s1)" using assms(6) k by simp
  from draw_pending [OF s1(3) kl]
  obtain s' where s': "draw k s1 = (Inr (take k (pending s1)), s')" "valid_state s'"
    "pending s' = drop k (pending s1)" "device s' = device s1" "reads s' = reads s1"
    by blast
  have mw: "max_winx s' = max_winx s1"
    using max_winx_draw_pending [OF s1(3) kl] s'(1) by simp
  have "take n (word_bits (take m buf)) = b # take k (pending s1)"
    "drop n (word_bits (take m buf)) = drop k (pending s1)"
    using s1(2) [symmetric] k by simp_all
  then show ?thesis
    using s1 s' mw k by simp
qed

subsection \<open>The bits of the bytes read\<close>

lemma bit_le_word:
  "bit (le_word bs) i \<longleftrightarrow> i < 32 \<and> i div 8 < length bs \<and> bit (bs ! (i div 8)) (i mod 8)"
proof (induction bs arbitrary: i)
  case Nil
  then show ?case by simp
next
  case (Cons b bs)
  show ?case
  proof (cases "i < 8")
    case True
    then show ?thesis
      by (simp add: bit_or_iff bit_push_bit_iff bit_ucast_iff)
  next
    case False
    then obtain j where j: "i = j + 8" by (metis le_add_diff_inverse2 not_less)
    have "(j + 8) div 8 = Suc (j div 8)" by simp
    moreover have "\<not> bit b (j + 8)" using bit_imp_le_length [of b "j + 8"] by auto
    ultimately show ?thesis using j Cons.IH [of j]
      by (auto simp add: bit_or_iff bit_push_bit_iff bit_ucast_iff)
  qed
qed

lemma length_byte_bits [simp]: "length (byte_bits bs) = 8 * length bs"
  by (simp add: byte_bits_def)

lemma bits_of_le_word:
  assumes "length bs = 4"
  shows "bits_of 32 (le_word bs) = byte_bits bs"
proof (rule nth_equalityI)
  show "length (bits_of 32 (le_word bs)) = length (byte_bits bs)"
    using assms by simp
next
  fix i assume "i < length (bits_of 32 (le_word bs))"
  then have i: "i < 32" by simp
  then have "i div 8 < 4" by simp
  then show "bits_of 32 (le_word bs) ! i = byte_bits bs ! i"
    using i assms by (simp add: bits_of_def byte_bits_def bit_le_word)
qed

lemma byte_bits_append: "byte_bits (xs @ ys) = byte_bits xs @ byte_bits ys"
proof (rule nth_equalityI)
  show "length (byte_bits (xs @ ys)) = length (byte_bits xs @ byte_bits ys)"
    by simp
next
  fix i assume "i < length (byte_bits (xs @ ys))"
  then have i: "i < 8 * length xs + 8 * length ys" by simp
  show "byte_bits (xs @ ys) ! i = (byte_bits xs @ byte_bits ys) ! i"
  proof (cases "i < 8 * length xs")
    case True
    then have "i div 8 < length xs" by simp
    then show ?thesis using True i by (simp add: byte_bits_def nth_append)
  next
    case False
    then obtain j where j: "i = j + 8 * length xs" by (metis le_add_diff_inverse2 not_less)
    then have jl: "j < 8 * length ys" using i by simp
    have "(j + 8 * length xs) div 8 = j div 8 + length xs" by simp
    moreover have "(j + 8 * length xs) mod 8 = j mod 8" by simp
    ultimately show ?thesis using j jl
      by (simp add: byte_bits_def nth_append)
  qed
qed

lemma word_bits_store_bytes:
  assumes "4 * k \<le> length bs" "k \<le> length buf"
  shows "word_bits (take k (store_bytes bs buf)) = byte_bits (take (4 * k) bs)"
  using assms
proof (induction k arbitrary: bs buf)
  case 0
  then show ?case by (simp add: byte_bits_def)
next
  case (Suc k)
  then obtain w ws where buf: "buf = w # ws" by (cases buf) simp_all
  have ne: "bs \<noteq> []" using Suc.prems(1) by auto
  have l4: "length (take 4 bs) = 4" using Suc.prems(1) by simp
  have st: "store_bytes bs buf = le_word (take 4 bs) # store_bytes (drop 4 bs) ws"
    using ne Suc.prems(1) by (simp add: buf)
  have "word_bits (take k (store_bytes (drop 4 bs) ws)) = byte_bits (take (4 * k) (drop 4 bs))"
    using Suc.prems by (intro Suc.IH) (simp_all add: buf)
  moreover have "take (4 * Suc k) bs = take 4 bs @ take (4 * k) (drop 4 bs)"
    by (simp add: take_add)
  ultimately show ?case
    using l4 by (simp add: st word_bits_Cons bits_of_le_word byte_bits_append del: length_take)
qed

subsection \<open>Order of the bits and the moment of the refill\<close>

text \<open>
  Claim C7.  Take a state in which a refill is due (\<open>winx = max_winx\<close>, as at program
  start) and let the read deliver at least one word, leaving \<open>m\<close> valid words in the
  buffer \<open>buf\<close>.  Then the next \<open>n \<le> 32 m\<close> calls return the first \<open>n\<close> bits of
  \<open>word_bits\<close> of the valid words: bit 0 of word 0, bit 1 of word 0, ..., bit 31 of
  word 0, bit 0 of word 1, and so on.  All of them together make one read.  The state
  asks for a refill again exactly when \<open>n = 32 m\<close>, and the call after the \<open>n\<close>-th reads
  from the device exactly in that case.  The state reached is valid, so the same holds
  for the next block.
\<close>

theorem bits_in_buffer_order:
  assumes "valid_state s" "winx s = max_winx s" "device s (reads s) = Read_Gives bs"
    "4 \<le> length bs"
    and m: "m = length (take (4 * BUFSZ) bs) div 4"
    and buf: "buf = store_bytes (take (4 * BUFSZ) bs) (rand_buf s)"
    and n: "0 < n" "n \<le> 32 * m"
  shows "\<exists>s'. draw n s = (Inr (take n (word_bits (take m buf))), s') \<and> valid_state s' \<and>
           reads s' = reads s + 1 \<and> (winx s' = max_winx s' \<longleftrightarrow> n = 32 * m) \<and>
           reads (snd (secure_random_bit s')) = (if n = 32 * m then reads s + 2 else reads s + 1)"
proof -
  from draw_block [OF assms(1-4) n m buf]
  obtain s' where s': "draw n s = (Inr (take n (word_bits (take m buf))), s')" "valid_state s'"
    "pending s' = drop n (word_bits (take m buf))" "reads s' = reads s + 1"
    by blast
  have "length buf = 256" using assms(1) by (simp add: buf valid_state_def BUFSZ_def)
  moreover have "m \<le> 256" by (simp add: m BUFSZ_def)
  ultimately have "length (word_bits (take m buf)) = 32 * m" by simp
  then have "pending s' = [] \<longleftrightarrow> n = 32 * m" using s'(3) n(2) by auto
  then have w: "winx s' = max_winx s' \<longleftrightarrow> n = 32 * m"
    using pending_Nil_iff [OF s'(2)] by simp
  then show ?thesis
    using s' by (simp add: reads_secure_random_bit)
qed

lemma store_two_words: "store_bytes [0x0D, 0, 0, 0, 0xFF, 0, 0, 0x80] (replicate 256 0) =
      [0x0000000D, 0x800000FF] @ replicate 254 0"
  by code_simp

theorem bits_in_buffer_order_witness:
  "\<exists>s'. draw 64 (initial two_words) =
          (Inr (take 64 (word_bits [0x0000000D, 0x800000FF])), s') \<and>
        valid_state s' \<and> reads s' = 1 \<and> winx s' = max_winx s' \<and>
        reads (snd (secure_random_bit s')) = 2"
proof -
  let ?bs = "[0x0D, 0, 0, 0, 0xFF, 0, 0, 0x80] :: u8 list"
  have 1: "valid_state (initial two_words)"
    by (simp add: initial_def valid_state_def BUFSZ_def)
  have 2: "winx (initial two_words) = max_winx (initial two_words)"
    by (simp add: initial_def)
  have 3: "device (initial two_words) (reads (initial two_words)) = Read_Gives ?bs"
    by (simp add: initial_def two_words_def)
  have 4: "4 \<le> length ?bs" by simp
  have 5: "2 = length (take (4 * BUFSZ) ?bs) div 4" by (simp add: BUFSZ_def)
  have 6: "[0x0000000D, 0x800000FF] @ replicate 254 0 =
      store_bytes (take (4 * BUFSZ) ?bs) (rand_buf (initial two_words))"
    using store_two_words by (simp add: BUFSZ_def initial_def)
  have 7: "(0::nat) < 64" "(64::nat) \<le> 32 * 2" by simp_all
  have 8: "reads (initial two_words) = 0" by (simp add: initial_def)
  from bits_in_buffer_order [OF 1 2 3 4 5 6 7]
  show ?thesis by (simp add: 8 numeral_2_eq_2)
qed


subsection \<open>Failure of the device\<close>

text \<open>
  Claim C8.  When a refill is due and \<open>/dev/urandom\<close> cannot be opened, or the read
  fails or delivers fewer than four bytes, \<open>secure_random_bit\<close> ends the process with
  a \<open>perror\<close> diagnostic and exit status 1.  No bit is returned.  The device has been
  tried once (no retry), and the indices of the buffer are as they were.
\<close>

theorem fatal_entropy_failure:
  assumes "winx s = max_winx s" and d: "d = device s (reads s)"
    and "d = Open_Fails \<or> d = Read_Fails \<or> (\<exists>bs. d = Read_Gives bs \<and> length bs < 4)"
  shows "secure_random_bit s =
      (Inl (Exit (Perror (if d = Open_Fails then ''open'' else ''read'')) 1),
       s\<lparr>reads := reads s + 1,
         rand_buf := (case d of Read_Gives bs \<Rightarrow> store_bytes bs (rand_buf s) | _ \<Rightarrow> rand_buf s)\<rparr>)"
  using assms
  by (auto simp add: secure_random_bit_def refill_def sys_open_def sys_read_def Let_def BUFSZ_def)

theorem fatal_entropy_failure_witness:
  "fst (secure_random_bit (initial (\<lambda>k. Open_Fails))) = Inl (Exit (Perror ''open'') 1) \<and>
   fst (secure_random_bit (initial (\<lambda>k. Read_Fails))) = Inl (Exit (Perror ''read'') 1) \<and>
   fst (secure_random_bit (initial (\<lambda>k. Read_Gives [1, 2, 3]))) = Inl (Exit (Perror ''read'') 1) \<and>
   reads (snd (secure_random_bit (initial (\<lambda>k. Read_Gives [1, 2, 3])))) = 1"
  using fatal_entropy_failure [of "initial (\<lambda>k. Open_Fails)" Open_Fails]
    fatal_entropy_failure [of "initial (\<lambda>k. Read_Fails)" Read_Fails]
    fatal_entropy_failure [of "initial (\<lambda>k. Read_Gives [1, 2, 3])" "Read_Gives [1, 2, 3]"]
  by (simp add: initial_def)

subsection \<open>A read that ends inside a word\<close>

text \<open>
  Claim C10.  When the refill read delivers \<open>rv\<close> bytes, \<open>4 \<le> rv \<le> 4 * BUFSZ\<close>, the
  number of valid words is \<open>rv div 4\<close>.  The next \<open>32 * (rv div 4)\<close> calls return the
  bits of the first \<open>4 * (rv div 4)\<close> bytes and nothing else, with that one read; then
  a refill is due and the next call reads again.  So when \<open>rv\<close> is not a multiple of 4,
  the trailing \<open>rv mod 4\<close> bytes are never returned as bits.
\<close>

theorem partial_word_discarded:
  assumes "valid_state s" "winx s = max_winx s" "device s (reads s) = Read_Gives bs"
    "4 \<le> length bs" "length bs \<le> 4 * BUFSZ"
  shows "\<exists>s'. draw (32 * (length bs div 4)) s =
             (Inr (byte_bits (take (4 * (length bs div 4)) bs)), s') \<and>
           unat (max_winx s') = length bs div 4 \<and> winx s' = max_winx s' \<and>
           reads s' = reads s + 1 \<and> reads (snd (secure_random_bit s')) = reads s + 2 \<and>
           (\<forall>n. 0 < n \<and> n \<le> 32 * (length bs div 4) \<longrightarrow> reads (snd (draw n s)) = reads s + 1)"
proof -
  define m where "m = length bs div 4"
  define buf where "buf = store_bytes bs (rand_buf s)"
  have tk: "take (4 * BUFSZ) bs = bs" using assms(5) by simp
  have m: "m = length (take (4 * BUFSZ) bs) div 4" by (simp add: tk m_def)
  have buf: "buf = store_bytes (take (4 * BUFSZ) bs) (rand_buf s)" by (simp add: tk buf_def)
  have m1: "0 < 32 * m" "32 * m \<le> 32 * m" using assms(4) by (simp_all add: m_def)
  have lenb: "length (rand_buf s) = 256" using assms(1) by (simp add: valid_state_def BUFSZ_def)
  have mb: "4 * m \<le> length bs" "m \<le> length (rand_buf s)"
    using assms(5) lenb by (simp_all add: m_def BUFSZ_def)
  have wb: "word_bits (take m buf) = byte_bits (take (4 * m) bs)"
    unfolding buf_def by (rule word_bits_store_bytes [OF mb])
  from draw_block [OF assms(1-4) m1 m buf]
  obtain s' where s': "draw (32 * m) s = (Inr (take (32 * m) (word_bits (take m buf))), s')"
    "valid_state s'" "pending s' = drop (32 * m) (word_bits (take m buf))"
    "reads s' = reads s + 1" "unat (max_winx s') = m"
    by blast
  have l: "length (word_bits (take m buf)) = 32 * m"
    using mb(2) by (simp add: buf_def)
  then have "pending s' = []" using s'(3) by simp
  then have w: "winx s' = max_winx s'" using pending_Nil_iff [OF s'(2)] by simp
  have all: "reads (snd (draw n s)) = reads s + 1" if "0 < n" "n \<le> 32 * m" for n
  proof -
    from draw_block [OF assms(1-4) that m buf]
    obtain t where "draw n s = (Inr (take n (word_bits (take m buf))), t)" "reads t = reads s + 1"
      by blast
    then show ?thesis by simp
  qed
  show ?thesis
    using s' w l wb all by (simp add: reads_secure_random_bit m_def [symmetric])
qed

theorem partial_word_discarded_witness:
  "\<exists>s'. draw 32 (initial six_bytes) = (Inr (byte_bits [0x81, 0, 0, 0x01]), s') \<and>
     unat (max_winx s') = 1 \<and> winx s' = max_winx s' \<and> reads s' = 1 \<and>
     reads (snd (secure_random_bit s')) = 2"
proof -
  let ?bs = "[0x81, 0, 0, 0x01, 0xFF, 0xFF] :: u8 list"
  have 1: "valid_state (initial six_bytes)"
    by (simp add: initial_def valid_state_def BUFSZ_def)
  have 2: "winx (initial six_bytes) = max_winx (initial six_bytes)"
    by (simp add: initial_def)
  have 3: "device (initial six_bytes) (reads (initial six_bytes)) = Read_Gives ?bs"
    by (simp add: initial_def six_bytes_def)
  have 4: "4 \<le> length ?bs" "length ?bs \<le> 4 * BUFSZ" by (simp_all add: BUFSZ_def)
  have 5: "reads (initial six_bytes) = 0" by (simp add: initial_def)
  from partial_word_discarded [OF 1 2 3 4]
  show ?thesis by (auto simp add: 5 numeral_2_eq_2)
qed

section \<open>Properties of the sampler\<close>

subsection \<open>Word arithmetic\<close>

lemma nat_or_less: "(a::nat) < 2 ^ n \<Longrightarrow> b < 2 ^ n \<Longrightarrow> a OR b < 2 ^ n"
  by (metis take_bit_or take_bit_nat_eq_self_iff)

lemma unat_or_less:
  fixes x y :: u32
  shows "unat x < 2 ^ n \<Longrightarrow> unat y < 2 ^ n \<Longrightarrow> unat (x OR y) < 2 ^ n"
  by (simp add: unsigned_or_eq nat_or_less)

lemma unat_push_bit_1: "unat (push_bit 1 (x::u32)) = (2 * unat x) mod 2 ^ 32"
  by (simp add: push_bit_eq_mult unat_word_ariths mult.commute)

lemma unat_drop_bit_1: "unat (drop_bit 1 (x::u32)) = unat x div 2"
  by (metis drop_bit_eq_div power_one_right unat_drop_bit_eq)

lemma unat_cap: "unat (push_bit MAX_RAND_BITS 1 :: u32) = 2 ^ 28"
  by (simp add: MAX_RAND_BITS_def)

lemma cap_test_nat:
  fixes rmax :: u32
  shows "rmax < push_bit MAX_RAND_BITS 1 \<longleftrightarrow> unat rmax < 2 ^ 28"
  unfolding word_less_nat_alt unat_cap ..

lemma reject_test_nat:
  fixes r rmax maxv :: u32
  shows "rmax - rmax mod maxv \<le> r \<longleftrightarrow> unat rmax - unat rmax mod unat maxv \<le> unat r"
proof -
  have "unat (rmax mod maxv) \<le> unat rmax" by (simp add: unat_mod)
  then have "rmax mod maxv \<le> rmax" by (simp add: word_le_nat_alt)
  then have "unat (rmax - rmax mod maxv) = unat rmax - unat rmax mod unat maxv"
    by (simp add: unat_sub unat_mod)
  then show ?thesis by (simp add: word_le_nat_alt)
qed

lemma accept_after_doubling:
  fixes R M r :: nat
  assumes "0 < M" "M \<le> R" "r < R"
  shows "\<not> 2 * R - (2 * R) mod M \<le> r"
proof -
  have "(2 * R) mod M < M" using assms(1) by simp
  then show ?thesis using assms by linarith
qed

lemma accept_after_halving:
  fixes R M r :: nat
  assumes "0 < M" "M \<le> R" "r < R"
  shows "\<not> R - R mod M \<le> r div 2"
proof -
  have "R mod M < M" using assms(1) by simp
  moreover have "R mod M \<le> R - M" using assms(2)
    by (metis le_mod_geq mod_less_eq_dividend)
  ultimately have "2 * (R mod M) < R" using assms(2) by linarith
  then show ?thesis using assms(3) by linarith
qed

lemma pow2_le_31: "j < 32 \<Longrightarrow> (2::nat) ^ j \<le> 2 ^ 31"
  by (intro power_increasing) simp_all

lemma push_bit_1_pow2:
  fixes rmax :: u32
  assumes "rmax = 0 \<or> (\<exists>j<32. unat rmax = 2 ^ j)"
  shows "push_bit 1 rmax = 0 \<or> (\<exists>j<32. unat (push_bit 1 rmax) = 2 ^ j)"
proof (cases "rmax = 0")
  case True
  then show ?thesis by simp
next
  case False
  then obtain j where j: "j < 32" "unat rmax = 2 ^ j" using assms by blast
  show ?thesis
  proof (cases "j = 31")
    case True
    then have "unat (push_bit 1 rmax) = 0"
      using j(2) unat_push_bit_1 [of rmax] by simp
    then show ?thesis by (simp add: unat_eq_0)
  next
    case False
    then have j1: "Suc j < 32" using j(1) by simp
    then have "(2::nat) ^ Suc j < 2 ^ 32" by (intro power_strict_increasing) simp_all
    then have "unat (push_bit 1 rmax) = 2 ^ Suc j"
      using j(2) unat_push_bit_1 [of rmax] by simp
    then show ?thesis using j1 by blast
  qed
qed

lemma pow2_mod3: "(2::nat) ^ j mod 3 \<noteq> 0"
proof (induction j)
  case 0
  then show ?case by simp
next
  case (Suc j)
  have "(2::nat) ^ Suc j mod 3 = (2 * (2 ^ j mod 3)) mod 3"
    by (simp add: mod_mult_right_eq)
  moreover have "(2::nat) ^ j mod 3 < 3" by simp
  then have "(2::nat) ^ j mod 3 = 1 \<or> (2::nat) ^ j mod 3 = 2"
    using Suc by linarith
  ultimately show ?case by auto
qed

lemma nat_mask_or: "(2 ^ j - 1) OR (2::nat) ^ j = 2 ^ Suc j - 1"
  by (metis mask_Suc_exp mask_eq_exp_minus_1 or.commute)

lemma nat_or_pow: "(a::nat) < 2 ^ j \<Longrightarrow> a OR 2 ^ j = a + 2 ^ j"
proof -
  assume "a < 2 ^ j"
  then have "\<not> bit a j" by (simp add: bit_iff_odd)
  then have "a AND 2 ^ j = 0" by (simp add: and_exp_eq_0_iff_not_bit)
  then show ?thesis by (simp add: disjunctive_add_eq_or)
qed

lemma unat_or_pow:
  fixes r rmax :: u32
  assumes "unat r < 2 ^ j" "unat rmax = 2 ^ j"
  shows "unat (r OR rmax) = unat r + 2 ^ j"
  using assms by (simp add: unsigned_or_eq nat_or_pow)

lemma word_eq_pow:
  fixes x :: u32
  assumes "unat x = 2 ^ j"
  shows "x = 2 ^ j"
  by (metis assms(1) of_int_numeral of_int_power of_nat_numeral of_nat_power
    of_nat_unat word_of_int_uint)

lemma unat_pow2:
  assumes "k < 32"
  shows "unat (2 ^ k :: u32) = 2 ^ k"
proof -
  have "(2::nat) ^ k < 2 ^ 32" using assms by (intro power_strict_increasing) simp_all
  moreover have "(2 ^ k :: u32) = word_of_nat (2 ^ k)" by simp
  ultimately show ?thesis by (simp only: unat_of_nat) simp
qed

lemma cap_test_pow:
  fixes rmax :: u32
  assumes "unat rmax = 2 ^ j"
  shows "rmax < push_bit MAX_RAND_BITS 1 \<longleftrightarrow> j < 28"
proof -
  have "(2::nat) ^ j < 2 ^ 28 \<longleftrightarrow> j < 28" by (rule power_strict_increasing_iff) simp
  then show ?thesis unfolding cap_test_nat assms .
qed

text \<open>A bit returned by \<open>secure_random_bit\<close> is 0 or 1.\<close>

lemma secure_random_bit_01:
  assumes "secure_random_bit s = (Inr b, s')"
  shows "b = 0 \<or> b = 1"
proof -
  have "(w::u32) AND 1 = 0 \<or> w AND 1 = 1" for w
    by (simp add: and_one_eq mod_2_eq_odd)
  then show ?thesis
    using assms
    by (auto simp add: secure_random_bit_def Let_def split: prod.splits sum.splits if_splits)
qed

subsection \<open>The value returned lies in the range\<close>

lemma reject_loop_exit_aux:
  assumes "reject_loop maxv r rmax defect s = Some y"
  shows "defect = rmax mod maxv \<longrightarrow>
    (\<forall>r' rmax' s'. y = (Inr (r', rmax'), s') \<longrightarrow> r' < rmax' - rmax' mod maxv)"
proof (rule reject_loop.raw_induct [where P = "\<lambda>maxv r rmax defect s y.
    defect = rmax mod maxv \<longrightarrow>
    (\<forall>r' rmax' s'. y = (Inr (r', rmax'), s') \<longrightarrow> r' < rmax' - rmax' mod maxv)",
    OF _ assms], goal_cases)
  case (1 f maxv r rmax defect s y)
  show ?case
  proof (cases "rmax - defect \<le> r")
    case True
    then show ?thesis
      using 1 by (auto split: prod.splits sum.splits if_splits simp: Let_def)
  next
    case False
    with 1(2) have "y = (Inr (r, rmax), s)" by simp
    then show ?thesis using False by auto
  qed
qed

lemma reject_loop_exit:
  assumes "reject_loop maxv r rmax (rmax mod maxv) s = Some (Inr (r', rmax'), s')"
  shows "r' < rmax' - rmax' mod maxv"
  using reject_loop_exit_aux [OF assms] by simp

lemma div_range:
  fixes r rmax maxv :: u32
  assumes "r < rmax - rmax mod maxv"
  shows "rmax div maxv \<noteq> 0 \<and> r div (rmax div maxv) < maxv"
  by (metis (no_types, lifting) antisym_conv3 assms(1) div_lt_mult
    less_le_not_le minus_mod_eq_mult_div mult_zero_right
    word_div_mult_le)

lemma secure_random_less:
  assumes "secure_random maxv s = Some (Inr v, s')"
  shows "v < maxv"
proof -
  have nz: "maxv \<noteq> 0" using assms by (auto simp: secure_random_def)
  then obtain r rmax s1 where g: "grow_loop maxv 0 1 s = Some (Inr (r, rmax), s1)"
    using assms by (auto simp: secure_random_def split: option.splits prod.splits sum.splits)
  then obtain r2 rmax2 where
    rj: "reject_loop maxv r rmax (rmax mod maxv) s1 = Some (Inr (r2, rmax2), s')"
    and v: "v = r2 div (rmax2 div maxv)"
    using assms nz
    by (auto simp: secure_random_def split: option.splits prod.splits sum.splits if_splits)
  from reject_loop_exit [OF rj] div_range show ?thesis
    unfolding v by blast
qed

text \<open>
  Claim C2.  Whenever \<open>secure_random(max)\<close> returns a value \<open>v\<close>, then \<open>max \<ge> 1\<close> and
  \<open>v < max\<close> (and \<open>0 \<le> v\<close>, the value being unsigned): the rejection loop was left
  with a candidate \<open>r < rmax - rmax % max\<close>, the divisor \<open>rmax / max\<close> is not zero, and
  the truncating division maps \<open>r\<close> below \<open>max\<close>.  This holds for every 32-bit \<open>max\<close>
  and every state of the entropy buffer and of the device.
\<close>

theorem secure_random_range:
  assumes "secure_random maxv s = Some (Inr v, s')"
  shows "v < maxv \<and> maxv \<noteq> 0 \<and>
    (\<exists>r rmax. r < rmax - rmax mod maxv \<and> rmax div maxv \<noteq> 0 \<and> v = r div (rmax div maxv))"
proof -
  have nz: "maxv \<noteq> 0" using assms by (auto simp: secure_random_def)
  then obtain r rmax s1 where g: "grow_loop maxv 0 1 s = Some (Inr (r, rmax), s1)"
    using assms by (auto simp: secure_random_def split: option.splits prod.splits sum.splits)
  then obtain r2 rmax2 where
    rj: "reject_loop maxv r rmax (rmax mod maxv) s1 = Some (Inr (r2, rmax2), s')"
    and v: "v = r2 div (rmax2 div maxv)"
    using assms nz
    by (auto simp: secure_random_def split: option.splits prod.splits sum.splits if_splits)
  from reject_loop_exit [OF rj] div_range [of r2 rmax2 maxv] show ?thesis
    unfolding v using nz by blast
qed

theorem secure_random_range_witness:
  "\<exists>s'. secure_random 3 (initial (first_byte 3)) = Some (Inr 1, s') \<and> (1::u32) < 3"
proof -
  have "map_option fst (secure_random 3 (initial (first_byte 3))) = Some (Inr 1)"
    by code_simp
  then obtain s' where s': "secure_random 3 (initial (first_byte 3)) = Some (Inr 1, s')"
    by (cases "secure_random 3 (initial (first_byte 3))") auto
  from secure_random_range [OF this] s' show ?thesis by blast
qed

subsection \<open>The first loop\<close>

text \<open>
  When the first loop returns, \<open>rmax\<close> is the smallest power of two that is at least
  \<open>max\<close>, and \<open>r < rmax\<close>.
\<close>

lemma grow_loop_result_aux:
  assumes "grow_loop maxv r rmax s = Some y"
  shows "maxv \<noteq> 0 \<longrightarrow> (rmax = 0 \<or> (\<exists>j<32. unat rmax = 2 ^ j \<and> unat r < 2 ^ j)) \<longrightarrow>
    (\<forall>r' rmax' s'. y = (Inr (r', rmax'), s') \<longrightarrow>
      (\<exists>j'<32. unat rmax' = 2 ^ j' \<and> unat r' < 2 ^ j' \<and> unat maxv \<le> 2 ^ j' \<and>
         (rmax' = rmax \<or> 2 ^ j' < 2 * unat maxv)))"
proof (rule grow_loop.raw_induct [where P = "\<lambda>maxv r rmax s y.
    maxv \<noteq> 0 \<longrightarrow> (rmax = 0 \<or> (\<exists>j<32. unat rmax = 2 ^ j \<and> unat r < 2 ^ j)) \<longrightarrow>
    (\<forall>r' rmax' s'. y = (Inr (r', rmax'), s') \<longrightarrow>
      (\<exists>j'<32. unat rmax' = 2 ^ j' \<and> unat r' < 2 ^ j' \<and> unat maxv \<le> 2 ^ j' \<and>
         (rmax' = rmax \<or> 2 ^ j' < 2 * unat maxv)))", OF _ assms], goal_cases)
  case (1 f maxv r rmax s y)
  show ?case
  proof (intro impI allI)
    fix r' rmax' s'
    assume nz: "maxv \<noteq> 0"
      and inv: "rmax = 0 \<or> (\<exists>j<32. unat rmax = 2 ^ j \<and> unat r < 2 ^ j)"
      and y: "y = (Inr (r', rmax'), s')"
    show "\<exists>j'<32. unat rmax' = 2 ^ j' \<and> unat r' < 2 ^ j' \<and> unat maxv \<le> 2 ^ j' \<and>
         (rmax' = rmax \<or> 2 ^ j' < 2 * unat maxv)"
    proof (cases "rmax < maxv")
      case False
      then have eq: "r' = r" "rmax' = rmax" using 1(2) y by simp_all
      have le: "unat maxv \<le> unat rmax" using False by (simp add: word_le_nat_alt not_less)
      have "unat maxv \<noteq> 0" using nz by (simp add: unat_eq_0)
      then have "rmax \<noteq> 0" using le by auto
      then show ?thesis using inv le eq by auto
    next
      case True
      then obtain b s1 where b: "secure_random_bit s = (Inr b, s1)"
        and f: "f maxv (if b = 1 then r OR rmax else r) (push_bit 1 rmax) s1 = Some y"
        using 1(2) y by (auto split: prod.splits sum.splits)
      define r1 where "r1 = (if b = 1 then r OR rmax else r)"
      have inv1: "push_bit 1 rmax = 0 \<or> (\<exists>j<32. unat (push_bit 1 rmax) = 2 ^ j \<and> unat r1 < 2 ^ j)"
      proof (cases "rmax = 0")
        case True
        then show ?thesis by simp
      next
        case False
        then obtain j where j: "j < 32" "unat rmax = 2 ^ j" "unat r < 2 ^ j" using inv by blast
        show ?thesis
        proof (cases "j = 31")
          case True
          then have "unat (push_bit 1 rmax) = 0"
            using j(2) unat_push_bit_1 [of rmax] by simp
          then show ?thesis by (simp add: unat_eq_0)
        next
          case False
          then have j1: "Suc j < 32" using j(1) by simp
          then have "(2::nat) ^ Suc j < 2 ^ 32" by (intro power_strict_increasing) simp_all
          then have "unat (push_bit 1 rmax) = 2 ^ Suc j"
            using j(2) unat_push_bit_1 [of rmax] by simp
          moreover have "unat r1 < 2 ^ Suc j"
            using j(2,3) unat_or_less [of r "Suc j" rmax] by (simp add: r1_def)
          ultimately show ?thesis using j1 by blast
        qed
      qed
      from 1(1) [OF f] nz inv1 y
      obtain j' where j': "j' < 32" "unat rmax' = 2 ^ j'" "unat r' < 2 ^ j'" "unat maxv \<le> 2 ^ j'"
        "rmax' = push_bit 1 rmax \<or> 2 ^ j' < 2 * unat maxv"
        unfolding r1_def by blast
      have "2 ^ j' < 2 * unat maxv"
      proof (cases "rmax' = push_bit 1 rmax")
        case False
        then show ?thesis using j'(5) by simp
      next
        case eq: True
        have "unat rmax < unat maxv" using True by (simp add: word_less_nat_alt)
        moreover have "unat (push_bit 1 rmax) \<le> 2 * unat rmax"
          using unat_push_bit_1 [of rmax] by (metis mod_less_eq_dividend)
        ultimately show ?thesis using j'(2) eq by simp
      qed
      then show ?thesis using j' by blast
    qed
  qed
qed

lemma grow_loop_result:
  assumes "grow_loop maxv 0 1 s = Some (Inr (r, rmax), s')" "maxv \<noteq> 0"
  shows "\<exists>j<32. unat rmax = 2 ^ j \<and> unat r < 2 ^ j \<and> unat maxv \<le> 2 ^ j \<and>
           (j = 0 \<or> 2 ^ j < 2 * unat maxv)"
proof -
  have "(1::u32) = 0 \<or> (\<exists>j<32. unat (1::u32) = 2 ^ j \<and> unat (0::u32) < 2 ^ j)"
    by (intro disjI2 exI [of _ 0]) simp
  with grow_loop_result_aux [OF assms(1)] assms(2)
  obtain j where j: "j < 32" "unat rmax = 2 ^ j" "unat r < 2 ^ j" "unat maxv \<le> 2 ^ j"
    "rmax = 1 \<or> 2 ^ j < 2 * unat maxv"
    by blast
  have "j = 0" if "rmax = 1"
    using that j(2) by (cases j) simp_all
  then show ?thesis using j by blast
qed

text \<open>With the device \<open>ones\<close> every call of \<open>secure_random_bit\<close> returns 1, for ever.\<close>

lemma byte_bits_ones: "byte_bits [0xFF, 0xFF, 0xFF, 0xFF] = replicate 32 1"
  by code_simp

lemma ones_step:
  assumes "valid_state s" "device s = ones" "set (pending s) \<subseteq> {1}"
  shows "\<exists>s'. secure_random_bit s = (Inr 1, s') \<and> valid_state s' \<and> device s' = ones \<and>
           set (pending s') \<subseteq> {1}"
proof (cases "winx s = max_winx s")
  case True
  let ?bs = "[0xFF, 0xFF, 0xFF, 0xFF] :: u8 list"
  have d: "device s (reads s) = Read_Gives ?bs" by (simp add: assms(2) ones_def)
  have 4: "4 \<le> length ?bs" by simp
  have tk: "take (4 * BUFSZ) ?bs = ?bs" by (simp add: BUFSZ_def)
  from secure_random_bit_refilled [OF assms(1) True d 4]
  obtain b s' where s': "secure_random_bit s = (Inr b, s')"
    "b # pending s' = word_bits (take 1 (store_bytes ?bs (rand_buf s)))"
    "valid_state s'" "device s' = device s"
    unfolding tk by auto
  have "length (rand_buf s) = 256" using assms(1) by (simp add: valid_state_def BUFSZ_def)
  then have "word_bits (take 1 (store_bytes ?bs (rand_buf s))) = byte_bits (take (4 * 1) ?bs)"
    by (intro word_bits_store_bytes) simp_all
  then have "b # pending s' = replicate 32 1"
    using s'(2) byte_bits_ones by simp
  then have "b = 1" "pending s' = replicate 31 1"
    by (simp_all add: numeral_eq_Suc)
  then show ?thesis using s' assms(2) by auto
next
  case False
  then have lt: "winx s < max_winx s" using assms(1) by (auto simp add: valid_state_def)
  then have ne: "pending s \<noteq> []" using pending_Nil_iff [OF assms(1)] by simp
  from secure_random_bit_buffered [OF assms(1) lt]
  obtain s' where s': "secure_random_bit s = (Inr (hd (pending s)), s')" "valid_state s'"
    "pending s' = tl (pending s)" "device s' = device s"
    by blast
  have "hd (pending s) = 1" using ne assms(3) by (cases "pending s") auto
  moreover have "set (tl (pending s)) \<subseteq> {1}" using ne assms(3) by (cases "pending s") auto
  ultimately show ?thesis using s' assms(2) by auto
qed

lemma ones_initial:
  "valid_state (initial ones) \<and> device (initial ones) = ones \<and> set (pending (initial ones)) \<subseteq> {1}"
  by (simp add: initial_def valid_state_def pending_def BUFSZ_def)

lemma ones_draw:
  assumes "valid_state s" "device s = ones" "set (pending s) \<subseteq> {1}"
  shows "fst (draw n s) = Inr (replicate n 1)"
  using assms
proof (induction n arbitrary: s)
  case 0
  then show ?case by simp
next
  case (Suc n)
  from ones_step [OF Suc.prems]
  obtain s' where s': "secure_random_bit s = (Inr 1, s')" "valid_state s'" "device s' = ones"
    "set (pending s') \<subseteq> {1}" by blast
  from Suc.IH [OF s'(2-4)] show ?case
    using s'(1) by (auto split: prod.splits sum.splits)
qed

text \<open>
  For \<open>max > 2^31\<close> no 32-bit power of two is at least \<open>max\<close>: \<open>rmax\<close> goes from
  \<open>2^31\<close> to 0 and stays there, the test \<open>rmax < max\<close> holds for ever and the loop
  draws bits without end.
\<close>

lemma grow_loop_overflow_aux:
  assumes "grow_loop maxv r rmax s = Some y"
  shows "\<not> (2 ^ 31 < unat maxv \<and> (rmax = 0 \<or> (\<exists>j<32. unat rmax = 2 ^ j)) \<and>
    valid_state s \<and> device s = ones \<and> set (pending s) \<subseteq> {1})"
proof (rule grow_loop.raw_induct [where P = "\<lambda>maxv r rmax s y.
    \<not> (2 ^ 31 < unat maxv \<and> (rmax = 0 \<or> (\<exists>j<32. unat rmax = 2 ^ j)) \<and>
    valid_state s \<and> device s = ones \<and> set (pending s) \<subseteq> {1})", OF _ assms], goal_cases)
  case (1 f maxv r rmax s y)
  show ?case
  proof
    assume a: "2 ^ 31 < unat maxv \<and> (rmax = 0 \<or> (\<exists>j<32. unat rmax = 2 ^ j)) \<and>
      valid_state s \<and> device s = ones \<and> set (pending s) \<subseteq> {1}"
    then have "unat rmax \<le> 2 ^ 31" using pow2_le_31 by auto
    then have lt: "rmax < maxv" using a by (simp add: word_less_nat_alt)
    from a ones_step [of s]
    obtain s' where s': "secure_random_bit s = (Inr 1, s')" "valid_state s'" "device s' = ones"
      "set (pending s') \<subseteq> {1}" by blast
    have "f maxv (r OR rmax) (push_bit 1 rmax) s' = Some y"
      using 1(2) lt s'(1) by simp
    from 1(1) [OF this] show False
      using a s'(2-4) push_bit_1_pow2 [of rmax] by blast
  qed
qed

text \<open>
  Claim C4 as stated fails: \<open>max = 2^31 + 1\<close> is a 32-bit value above 0, the device
  \<open>ones\<close> never fails (every bit it gives is 1), and the first loop of
  \<open>secure_random\<close> does not terminate, so \<open>secure_random\<close> does not return.
\<close>

theorem grow_loop_overflow:
  "grow_loop 0x80000001 0 1 (initial ones) = None \<and>
   secure_random 0x80000001 (initial ones) = None \<and>
   (\<forall>n. fst (draw n (initial ones)) = Inr (replicate n 1))"
proof -
  have "(1::u32) = 0 \<or> (\<exists>j<32. unat (1::u32) = 2 ^ j)"
    by (intro disjI2 exI [of _ 0]) simp
  moreover have "2 ^ 31 < unat (0x80000001 :: u32)" by simp
  ultimately have "grow_loop 0x80000001 0 1 (initial ones) \<noteq> Some y" for y
    using grow_loop_overflow_aux [of "0x80000001" 0 1 "initial ones" y] ones_initial
    by blast
  then have g: "grow_loop 0x80000001 0 1 (initial ones) = None"
    by (meson option.exhaust)
  then have "secure_random 0x80000001 (initial ones) = None"
    by (simp add: secure_random_def)
  then show ?thesis using g ones_draw ones_initial by blast
qed

text \<open>
  Above \<open>2^31\<close> the first loop never returns a value, whatever the device does.
\<close>

lemma grow_loop_no_value_above:
  assumes "2 ^ 31 < unat maxv"
  shows "grow_loop maxv 0 1 s \<noteq> Some (Inr (r, rmax), s')"
proof
  assume g: "grow_loop maxv 0 1 s = Some (Inr (r, rmax), s')"
  have "maxv \<noteq> 0" using assms by auto
  from grow_loop_result [OF g this]
  obtain j where "j < 32" "unat maxv \<le> 2 ^ j" by blast
  then have "unat maxv \<le> 2 ^ 31" using pow2_le_31 [of j] by simp
  then show False using assms by simp
qed

text \<open>
  The first loop started with \<open>rmax = 2^j\<close>, when \<open>max \<le> 2^(j+n)\<close> with \<open>j + n \<le> 31\<close>:
  it ends within \<open>n\<close> draws.
\<close>

lemma grow_loop_run:
  assumes "j + n \<le> 31" "unat rmax = 2 ^ j" "unat r < 2 ^ j" "unat maxv \<le> 2 ^ (j + n)"
  shows "\<exists>k\<le>n.
    (\<exists>e s'. draw k s = (Inl e, s') \<and> grow_loop maxv r rmax s = Some (Inl e, s')) \<or>
    (\<exists>bits s' r'. draw k s = (Inr bits, s') \<and>
       grow_loop maxv r rmax s = Some (Inr (r', 2 ^ (j + k)), s') \<and>
       unat maxv \<le> 2 ^ (j + k) \<and> (k = 0 \<or> 2 ^ (j + k - 1) < unat maxv) \<and>
       unat r' = unat r + 2 ^ j * bits_value bits \<and> unat r' < 2 ^ (j + k))"
  using assms
proof (induction n arbitrary: j r rmax s)
  case 0
  have rm: "rmax = 2 ^ j" using "0.prems"(2) by (rule word_eq_pow)
  have "\<not> rmax < maxv" using "0.prems"(2,4) by (simp add: word_less_nat_alt)
  then have "grow_loop maxv r rmax s = Some (Inr (r, 2 ^ j), s)"
    by (subst grow_loop.simps) (simp add: rm)
  then show ?case using "0.prems" by simp
next
  case (Suc n)
  have rm: "rmax = 2 ^ j" using Suc.prems(2) by (rule word_eq_pow)
  show ?case
  proof (cases "rmax < maxv")
    case False
    then have "grow_loop maxv r rmax s = Some (Inr (r, 2 ^ j), s)"
      by (subst grow_loop.simps) (simp add: rm)
    moreover have "unat maxv \<le> 2 ^ j" using False Suc.prems(2) by (simp add: word_less_nat_alt)
    ultimately have "(\<exists>bits s' r'. draw 0 s = (Inr bits, s') \<and>
       grow_loop maxv r rmax s = Some (Inr (r', 2 ^ (j + 0)), s') \<and>
       unat maxv \<le> 2 ^ (j + 0) \<and> (0 = (0::nat) \<or> 2 ^ (j + 0 - 1) < unat maxv) \<and>
       unat r' = unat r + 2 ^ j * bits_value bits \<and> unat r' < 2 ^ (j + 0))"
      using Suc.prems(3) by simp
    then show ?thesis by blast
  next
    case True
    then have lt: "2 ^ j < unat maxv" using Suc.prems(2) by (simp add: word_less_nat_alt)
    obtain x s1 where x: "secure_random_bit s = (x, s1)" by (cases "secure_random_bit s")
    show ?thesis
    proof (cases x)
      case (Inl e)
      then have "grow_loop maxv r rmax s = Some (Inl e, s1)"
        using True x by (subst grow_loop.simps) simp
      moreover have "draw (Suc 0) s = (Inl e, s1)" using x Inl by simp
      ultimately show ?thesis by (intro exI [of _ "Suc 0"]) auto
    next
      case (Inr b)
      define r1 where "r1 = (if b = 1 then r OR rmax else r)"
      from secure_random_bit_01 [OF x [unfolded Inr]] have b01: "b = 0 \<or> b = 1" .
      have ur1: "unat r1 = unat r + 2 ^ j * unat b"
        using b01 unat_or_pow [OF Suc.prems(3,2)] by (auto simp: r1_def)
      have j1: "Suc j + n \<le> 31" using Suc.prems(1) by simp
      have "(2::nat) ^ Suc j \<le> 2 ^ 31" using j1 by (intro power_increasing) simp_all
      then have urm: "unat (push_bit 1 rmax) = 2 ^ Suc j"
        using Suc.prems(2) unat_push_bit_1 [of rmax] by simp
      have r1lt: "unat r1 < 2 ^ Suc j" using ur1 Suc.prems(3) b01 by auto
      have mv: "unat maxv \<le> 2 ^ (Suc j + n)" using Suc.prems(4) by simp
      have eq: "grow_loop maxv r rmax s = grow_loop maxv r1 (push_bit 1 rmax) s1"
        using True x Inr by (subst grow_loop.simps) (simp add: r1_def)
      from Suc.IH [OF j1 urm r1lt mv, of s1]
      obtain k where k: "k \<le> n" and
        alt: "(\<exists>e s'. draw k s1 = (Inl e, s') \<and>
            grow_loop maxv r1 (push_bit 1 rmax) s1 = Some (Inl e, s')) \<or>
          (\<exists>bits s' r'. draw k s1 = (Inr bits, s') \<and>
            grow_loop maxv r1 (push_bit 1 rmax) s1 = Some (Inr (r', 2 ^ (Suc j + k)), s') \<and>
            unat maxv \<le> 2 ^ (Suc j + k) \<and> (k = 0 \<or> 2 ^ (Suc j + k - 1) < unat maxv) \<and>
            unat r' = unat r1 + 2 ^ Suc j * bits_value bits \<and> unat r' < 2 ^ (Suc j + k))"
        by blast
      from alt consider
        (fault) e s' where "draw k s1 = (Inl e, s')"
          "grow_loop maxv r1 (push_bit 1 rmax) s1 = Some (Inl e, s')"
      | (ok) bits s' r' where "draw k s1 = (Inr bits, s')"
          "grow_loop maxv r1 (push_bit 1 rmax) s1 = Some (Inr (r', 2 ^ (Suc j + k)), s')"
          "unat maxv \<le> 2 ^ (Suc j + k)" "k = 0 \<or> 2 ^ (Suc j + k - 1) < unat maxv"
          "unat r' = unat r1 + 2 ^ Suc j * bits_value bits" "unat r' < 2 ^ (Suc j + k)"
        by blast
      then show ?thesis
      proof cases
        case fault
        then have "draw (Suc k) s = (Inl e, s')" "grow_loop maxv r rmax s = Some (Inl e, s')"
          using x Inr eq by simp_all
        then show ?thesis using k by (intro exI [of _ "Suc k"]) auto
      next
        case a: ok
        have d: "draw (Suc k) s = (Inr (b # bits), s')" using x Inr a(1) by simp
        have g: "grow_loop maxv r rmax s = Some (Inr (r', 2 ^ (j + Suc k)), s')"
          using eq a(2) by simp
        have p: "2 ^ (j + Suc k - 1) < unat maxv"
          using a(4) lt by (cases "k = 0") simp_all
        have v: "unat r' = unat r + 2 ^ j * bits_value (b # bits)"
          using a(5) ur1 by (simp add: algebra_simps)
        have "\<exists>bits s' r'. draw (Suc k) s = (Inr bits, s') \<and>
           grow_loop maxv r rmax s = Some (Inr (r', 2 ^ (j + Suc k)), s') \<and>
           unat maxv \<le> 2 ^ (j + Suc k) \<and> (Suc k = 0 \<or> 2 ^ (j + Suc k - 1) < unat maxv) \<and>
           unat r' = unat r + 2 ^ j * bits_value bits \<and> unat r' < 2 ^ (j + Suc k)"
          using d g p v a(3,6) by auto
        then show ?thesis using k by (intro exI [of _ "Suc k"]) blast
      qed
    qed
  qed
qed

text \<open>
  Claim C4, amended.  For every \<open>max \<le> 2^31\<close> the first loop terminates, after
  \<open>k \<le> 31\<close> draws.  Either one of these draws ended the process (the device failed),
  or the loop returns in the state the \<open>k\<close> draws leave, with \<open>rmax = 2^k\<close> the smallest
  power of two that is at least \<open>max\<close> (\<open>max \<le> 2^k\<close>, and \<open>2^(k-1) < max\<close> unless
  \<open>k = 0\<close>), one draw per doubling, and \<open>r\<close> the number whose bit \<open>i\<close> is the \<open>i\<close>-th
  bit drawn, so \<open>r < rmax\<close>.  No 32-bit operation of the loop wraps around.
\<close>

theorem first_loop_terminates:
  assumes "unat maxv \<le> 2 ^ 31"
  shows "\<exists>k\<le>31.
    (\<exists>e s'. draw k s = (Inl e, s') \<and> grow_loop maxv 0 1 s = Some (Inl e, s')) \<or>
    (\<exists>bits s' r. draw k s = (Inr bits, s') \<and>
       grow_loop maxv 0 1 s = Some (Inr (r, 2 ^ k), s') \<and>
       unat maxv \<le> 2 ^ k \<and> (k = 0 \<or> 2 ^ (k - 1) < unat maxv) \<and>
       unat r = bits_value bits \<and> r < 2 ^ k)"
proof -
  have *: "0 + 31 \<le> (31::nat)" "unat (1::u32) = 2 ^ 0" "unat (0::u32) < 2 ^ 0"
    "unat maxv \<le> 2 ^ (0 + 31)" using assms by simp_all
  from grow_loop_run [OF *, of s]
  obtain k where k: "k \<le> 31" and
    raw: "(\<exists>e s'. draw k s = (Inl e, s') \<and> grow_loop maxv 0 1 s = Some (Inl e, s')) \<or>
      (\<exists>bits s' r'. draw k s = (Inr bits, s') \<and>
         grow_loop maxv 0 1 s = Some (Inr (r', 2 ^ (0 + k)), s') \<and>
         unat maxv \<le> 2 ^ (0 + k) \<and> (k = 0 \<or> 2 ^ (0 + k - 1) < unat maxv) \<and>
         unat r' = unat (0::u32) + 2 ^ 0 * bits_value bits \<and> unat r' < 2 ^ (0 + k))"
    by blast
  have "unat (2 ^ k :: u32) = 2 ^ k" using k by (intro unat_pow2) simp
  then have lt: "r' < 2 ^ k" if "unat r' < 2 ^ k" for r' :: u32
    using that by (simp add: word_less_nat_alt)
  from raw show ?thesis
  proof
    assume "\<exists>e s'. draw k s = (Inl e, s') \<and> grow_loop maxv 0 1 s = Some (Inl e, s')"
    then show ?thesis using k by blast
  next
    assume "\<exists>bits s' r'. draw k s = (Inr bits, s') \<and>
         grow_loop maxv 0 1 s = Some (Inr (r', 2 ^ (0 + k)), s') \<and>
         unat maxv \<le> 2 ^ (0 + k) \<and> (k = 0 \<or> 2 ^ (0 + k - 1) < unat maxv) \<and>
         unat r' = unat (0::u32) + 2 ^ 0 * bits_value bits \<and> unat r' < 2 ^ (0 + k)"
    then obtain bits s' r' where a: "draw k s = (Inr bits, s')"
      "grow_loop maxv 0 1 s = Some (Inr (r', 2 ^ (0 + k)), s')"
      "unat maxv \<le> 2 ^ (0 + k)" "k = 0 \<or> 2 ^ (0 + k - 1) < unat maxv"
      "unat r' = unat (0::u32) + 2 ^ 0 * bits_value bits" "unat r' < 2 ^ (0 + k)"
      by blast
    have "grow_loop maxv 0 1 s = Some (Inr (r', 2 ^ k), s')" using a(2) by simp
    moreover have "unat maxv \<le> 2 ^ k" using a(3) by simp
    moreover have "k = 0 \<or> 2 ^ (k - 1) < unat maxv" using a(4) by simp
    moreover have "unat r' = bits_value bits" using a(5) by simp
    moreover have "r' < 2 ^ k" using a(6) lt by simp
    ultimately have "\<exists>bits s' r. draw k s = (Inr bits, s') \<and>
       grow_loop maxv 0 1 s = Some (Inr (r, 2 ^ k), s') \<and>
       unat maxv \<le> 2 ^ k \<and> (k = 0 \<or> 2 ^ (k - 1) < unat maxv) \<and>
       unat r = bits_value bits \<and> r < 2 ^ k"
      using a(1) by blast
    then show ?thesis using k by blast
  qed
qed

theorem first_loop_terminates_witness:
  "\<exists>k\<le>31. \<exists>bits s' r. draw k (initial (first_byte 0xA5)) = (Inr bits, s') \<and>
     grow_loop 0x80000000 0 1 (initial (first_byte 0xA5)) = Some (Inr (r, 2 ^ k), s') \<and>
     unat (0x80000000 :: u32) \<le> 2 ^ k \<and> unat r = bits_value bits \<and> r < 2 ^ k"
proof -
  have ok: "(case grow_loop 0x80000000 0 1 (initial (first_byte 0xA5)) of
           Some (Inr (r, rmax), s1) \<Rightarrow> True | _ \<Rightarrow> False)"
    by code_simp
  have "unat (0x80000000 :: u32) \<le> 2 ^ 31" by simp
  from first_loop_terminates [OF this, of "initial (first_byte 0xA5)"] ok
  show ?thesis by (auto split: option.splits prod.splits sum.splits)
qed

subsection \<open>The rejection loop\<close>

lemma snd_draw_Suc:
  assumes "secure_random_bit s = (Inr b, s1)"
  shows "snd (draw (Suc k) s) = snd (draw k s1)"
  using assms by (simp split: prod.splits sum.splits)

lemma draw_Suc_Inr:
  assumes "draw (Suc i) s = (Inr bits, s2)"
  obtains b s1 where "secure_random_bit s = (Inr b, s1)" "draw i s1 = (Inr (tl bits), s2)"
    "bits = b # tl bits"
  using assms by (auto split: prod.splits sum.splits)

lemma reject_loop_accept:
  "\<not> rmax - defect \<le> r \<Longrightarrow> reject_loop maxv r rmax defect s = Some (Inr (r, rmax), s)"
  by (subst reject_loop.simps) simp

lemma reject_loop_zero_bit:
  assumes "j \<le> 28" "unat rmax = 2 ^ j" "unat r < 2 ^ j" "0 < unat maxv" "unat maxv \<le> 2 ^ j"
    and test: "rmax - rmax mod maxv \<le> r"
    and bit: "secure_random_bit s = (Inr b, s1)" "b \<noteq> 1"
  shows "\<exists>r' rmax'. reject_loop maxv r rmax (rmax mod maxv) s = Some (Inr (r', rmax'), s1)"
proof (cases "rmax < push_bit MAX_RAND_BITS 1")
  case True
  then have "unat rmax < 2 ^ 28" unfolding cap_test_nat .
  then have "(2::nat) ^ j < 2 ^ 28" using assms(2) by simp
  then have u: "unat (push_bit 1 rmax) = 2 * 2 ^ j"
    using assms(2) unat_push_bit_1 [of rmax] by simp
  have "\<not> push_bit 1 rmax - push_bit 1 rmax mod maxv \<le> r"
    unfolding reject_test_nat u
    by (rule accept_after_doubling) (use assms in simp_all)
  then have "reject_loop maxv r (push_bit 1 rmax) (push_bit 1 rmax mod maxv) s1 =
      Some (Inr (r, push_bit 1 rmax), s1)"
    by (rule reject_loop_accept)
  moreover have "reject_loop maxv r rmax (rmax mod maxv) s =
      reject_loop maxv r (push_bit 1 rmax) (push_bit 1 rmax mod maxv) s1"
    using test bit True by (subst reject_loop.simps) simp
  ultimately show ?thesis by simp
next
  case False
  have "\<not> rmax - rmax mod maxv \<le> drop_bit 1 r"
    unfolding reject_test_nat unat_drop_bit_1 assms(2)
    by (rule accept_after_halving) (use assms in simp_all)
  then have "reject_loop maxv (drop_bit 1 r) rmax (rmax mod maxv) s1 =
      Some (Inr (drop_bit 1 r, rmax), s1)"
    by (rule reject_loop_accept)
  moreover have "reject_loop maxv r rmax (rmax mod maxv) s =
      reject_loop maxv (drop_bit 1 r) rmax (rmax mod maxv) s1"
    using test bit False by (subst reject_loop.simps) simp
  ultimately show ?thesis by simp
qed

lemma reject_loop_one_bit:
  assumes "j \<le> 28" "unat rmax = 2 ^ j" "unat r < 2 ^ j" "unat maxv \<le> 2 ^ j"
    and test: "rmax - rmax mod maxv \<le> r"
    and bit: "secure_random_bit s = (Inr 1, s1)"
  shows "\<exists>j' r1 rmax1. j' \<le> 28 \<and> unat rmax1 = 2 ^ j' \<and> unat r1 < 2 ^ j' \<and>
           unat maxv \<le> 2 ^ j' \<and>
           reject_loop maxv r rmax (rmax mod maxv) s =
             reject_loop maxv r1 rmax1 (rmax1 mod maxv) s1"
proof -
  have or: "unat (r OR rmax) < 2 ^ Suc j"
    using assms(2,3) by (intro unat_or_less) simp_all
  show ?thesis
  proof (cases "rmax < push_bit MAX_RAND_BITS 1")
    case True
    then have "unat rmax < 2 ^ 28" unfolding cap_test_nat .
    then have "(2::nat) ^ j < 2 ^ 28" using assms(2) by simp
    then have "j < 28" by (rule power_less_imp_less_exp [rotated]) simp
    then have j: "Suc j \<le> 28" by simp
    have "(2::nat) ^ Suc j \<le> 2 ^ 28" using j by (intro power_increasing) simp_all
    then have u: "unat (push_bit 1 rmax) = 2 ^ Suc j"
      using assms(2) unat_push_bit_1 [of rmax] by simp
    have "reject_loop maxv r rmax (rmax mod maxv) s =
        reject_loop maxv (r OR rmax) (push_bit 1 rmax) (push_bit 1 rmax mod maxv) s1"
      using test bit True by (subst reject_loop.simps) simp
    moreover have "unat maxv \<le> 2 ^ Suc j" using assms(4) by simp
    ultimately show ?thesis using j u or by blast
  next
    case False
    have "unat (drop_bit 1 (r OR rmax)) < 2 ^ j"
      using or unat_drop_bit_1 [of "r OR rmax"] by simp
    moreover have "reject_loop maxv r rmax (rmax mod maxv) s =
        reject_loop maxv (drop_bit 1 (r OR rmax)) rmax (rmax mod maxv) s1"
      using test bit False by (subst reject_loop.simps) simp
    ultimately show ?thesis using assms(1,2,4) by blast
  qed
qed

lemma reject_loop_stops:
  assumes "j \<le> 28" "unat rmax = 2 ^ j" "unat r < 2 ^ j" "0 < unat maxv" "unat maxv \<le> 2 ^ j"
    and "draw (Suc i) s = (Inr bits, s2)" "bits ! i \<noteq> 1"
  shows "\<exists>k\<le>Suc i. \<exists>r' rmax'.
    reject_loop maxv r rmax (rmax mod maxv) s = Some (Inr (r', rmax'), snd (draw k s))"
  using assms
proof (induction i arbitrary: j r rmax s bits)
  case 0
  from draw_Suc_Inr [OF "0.prems"(6)]
  obtain b s1 where b: "secure_random_bit s = (Inr b, s1)" "bits = b # tl bits" by metis
  then have b1: "b \<noteq> 1" using "0.prems"(7) by (metis nth_Cons_0)
  show ?case
  proof (cases "rmax - rmax mod maxv \<le> r")
    case True
    from reject_loop_zero_bit [OF "0.prems"(1-5) True b(1) b1]
    obtain r' rmax' where "reject_loop maxv r rmax (rmax mod maxv) s = Some (Inr (r', rmax'), s1)"
      by blast
    moreover have "snd (draw (Suc 0) s) = s1" using b(1) by simp
    ultimately show ?thesis by (metis le_refl)
  next
    case False
    then have "reject_loop maxv r rmax (rmax mod maxv) s = Some (Inr (r, rmax), snd (draw 0 s))"
      by (simp add: reject_loop_accept)
    then show ?thesis by blast
  qed
next
  case (Suc i)
  from draw_Suc_Inr [OF Suc.prems(6)]
  obtain b s1 where b: "secure_random_bit s = (Inr b, s1)" "draw (Suc i) s1 = (Inr (tl bits), s2)"
    "bits = b # tl bits" by metis
  have nth: "tl bits ! i \<noteq> 1" using Suc.prems(7) b(3) by (metis nth_Cons_Suc)
  show ?case
  proof (cases "rmax - rmax mod maxv \<le> r")
    case True
    show ?thesis
    proof (cases "b = 1")
      case True
      from reject_loop_one_bit [OF Suc.prems(1-3,5) \<open>rmax - rmax mod maxv \<le> r\<close> b(1) [unfolded True]]
      obtain j' r1 rmax1 where 1: "j' \<le> 28" "unat rmax1 = 2 ^ j'" "unat r1 < 2 ^ j'"
        "unat maxv \<le> 2 ^ j'"
        "reject_loop maxv r rmax (rmax mod maxv) s = reject_loop maxv r1 rmax1 (rmax1 mod maxv) s1"
        by blast
      from Suc.IH [OF 1(1-3) Suc.prems(4) 1(4) b(2) nth]
      obtain k r' rmax' where k: "k \<le> Suc i"
        "reject_loop maxv r1 rmax1 (rmax1 mod maxv) s1 = Some (Inr (r', rmax'), snd (draw k s1))"
        by blast
      have "snd (draw (Suc k) s) = snd (draw k s1)" using b(1) by (rule snd_draw_Suc)
      then have "reject_loop maxv r rmax (rmax mod maxv) s =
          Some (Inr (r', rmax'), snd (draw (Suc k) s))"
        using 1(5) k(2) by simp
      then show ?thesis using k(1) by (metis Suc_le_mono)
    next
      case False
      from reject_loop_zero_bit [OF Suc.prems(1-5) \<open>rmax - rmax mod maxv \<le> r\<close> b(1) False]
      obtain r' rmax' where
        "reject_loop maxv r rmax (rmax mod maxv) s = Some (Inr (r', rmax'), s1)"
        by blast
      moreover have "snd (draw (Suc 0) s) = s1" using b(1) by simp
      moreover have "Suc 0 \<le> Suc (Suc i)" by simp
      ultimately show ?thesis by metis
    qed
  next
    case False
    then have "reject_loop maxv r rmax (rmax mod maxv) s = Some (Inr (r, rmax), snd (draw 0 s))"
      by (simp add: reject_loop_accept)
    then show ?thesis by blast
  qed
qed

lemma reject_loop_ones_aux:
  assumes "reject_loop maxv r rmax defect s = Some y"
  shows "\<not> (maxv = 3 \<and> defect = rmax mod 3 \<and>
    (\<exists>j. 2 \<le> j \<and> j \<le> 28 \<and> unat rmax = 2 ^ j \<and> unat r = 2 ^ j - 1) \<and>
    valid_state s \<and> device s = ones \<and> set (pending s) \<subseteq> {1})"
proof (rule reject_loop.raw_induct [where P = "\<lambda>maxv r rmax defect s y.
    \<not> (maxv = 3 \<and> defect = rmax mod 3 \<and>
    (\<exists>j. 2 \<le> j \<and> j \<le> 28 \<and> unat rmax = 2 ^ j \<and> unat r = 2 ^ j - 1) \<and>
    valid_state s \<and> device s = ones \<and> set (pending s) \<subseteq> {1})", OF _ assms], goal_cases)
  case (1 f maxv r rmax defect s y)
  show ?case
  proof
    assume a: "maxv = 3 \<and> defect = rmax mod 3 \<and>
      (\<exists>j. 2 \<le> j \<and> j \<le> 28 \<and> unat rmax = 2 ^ j \<and> unat r = 2 ^ j - 1) \<and>
      valid_state s \<and> device s = ones \<and> set (pending s) \<subseteq> {1}"
    then obtain j where j: "2 \<le> j" "j \<le> 28" "unat rmax = 2 ^ j" "unat r = 2 ^ j - 1"
      by blast
    have mv: "maxv = 3" and df: "defect = rmax mod 3" using a by simp_all
    have "unat rmax mod 3 \<noteq> 0" using j(3) pow2_mod3 by simp
    then have "unat rmax - unat rmax mod unat (3::u32) \<le> unat r"
      using j(3,4) by simp
    then have test: "rmax - defect \<le> r"
      unfolding df by (simp only: reject_test_nat)
    from a ones_step [of s]
    obtain s' where s': "secure_random_bit s = (Inr 1, s')" "valid_state s'" "device s' = ones"
      "set (pending s') \<subseteq> {1}" by blast
    have or: "unat (r OR rmax) = 2 ^ Suc j - 1"
      using j(3,4) nat_mask_or [of j] by (simp add: unsigned_or_eq)
    show False
    proof (cases "rmax < push_bit MAX_RAND_BITS 1")
      case True
      then have "unat rmax < 2 ^ 28" unfolding cap_test_nat .
      then have "(2::nat) ^ j < 2 ^ 28" using j(3) by simp
      then have "j < 28" by (rule power_less_imp_less_exp [rotated]) simp
      then have j1: "2 \<le> Suc j" "Suc j \<le> 28" using j(1) by simp_all
      have "(2::nat) ^ Suc j \<le> 2 ^ 28" using j1(2) by (intro power_increasing) simp_all
      then have u: "unat (push_bit 1 rmax) = 2 ^ Suc j"
        using j(3) unat_push_bit_1 [of rmax] by simp
      have "f 3 (r OR rmax) (push_bit 1 rmax) (push_bit 1 rmax mod 3) s' = Some y"
        using 1(2) test s'(1) True mv by simp
      from 1(1) [OF this] show False
        using s'(2-4) j1 u or by blast
    next
      case False
      have "unat (drop_bit 1 (r OR rmax)) = 2 ^ j - 1"
        using or unat_drop_bit_1 [of "r OR rmax"] by simp
      moreover have "f 3 (drop_bit 1 (r OR rmax)) rmax (rmax mod 3) s' = Some y"
        using 1(2) test s'(1) False mv df by simp
      from 1(1) [OF this] show False
        using s'(2-4) j calculation by blast
    qed
  qed
qed

text \<open>One iteration of the rejection loop, for each way it can go.\<close>

lemma reject_loop_fault:
  assumes "rmax - defect \<le> r" "secure_random_bit s = (Inl e, s1)"
  shows "reject_loop maxv r rmax defect s = Some (Inl e, s1)"
  using assms by (subst reject_loop.simps) simp

lemma reject_loop_grow_step:
  assumes "rmax - defect \<le> r" "secure_random_bit s = (Inr b, s1)" "rmax < push_bit MAX_RAND_BITS 1"
  shows "reject_loop maxv r rmax defect s =
    reject_loop maxv (if b = 1 then r OR rmax else r) (push_bit 1 rmax) (push_bit 1 rmax mod maxv) s1"
  using assms by (subst reject_loop.simps) simp

lemma reject_loop_cap_step:
  assumes "rmax - defect \<le> r" "secure_random_bit s = (Inr b, s1)"
    "\<not> rmax < push_bit MAX_RAND_BITS 1"
  shows "reject_loop maxv r rmax defect s =
    reject_loop maxv (drop_bit 1 (if b = 1 then r OR rmax else r)) rmax defect s1"
  using assms by (subst reject_loop.simps) simp

text \<open>The candidates that stay rejected while only 1 bits are drawn.\<close>

lemma always_rejected_iff:
  assumes "unat rmax = 2 ^ j"
  shows "always_rejected maxv r rmax \<longleftrightarrow>
    (\<forall>k. j \<le> k \<and> k \<le> 28 \<longrightarrow> 2 ^ j - unat r \<le> 2 ^ k mod unat maxv)"
proof -
  have "(2::nat) ^ j \<le> 2 ^ k \<longleftrightarrow> j \<le> k" for k by simp
  then show ?thesis
    by (auto simp add: always_rejected_def assms MAX_RAND_BITS_def)
qed

lemma always_rejected_test:
  assumes "unat rmax = 2 ^ j" "j \<le> 28" "unat r < 2 ^ j" "always_rejected maxv r rmax"
  shows "rmax - rmax mod maxv \<le> r"
proof -
  have "2 ^ j - unat r \<le> 2 ^ j mod unat maxv"
    using assms(2,4) by (simp add: always_rejected_iff [OF assms(1)])
  then have "unat rmax - unat rmax mod unat maxv \<le> unat r"
    using assms(1,3) by simp
  then show ?thesis by (simp only: reject_test_nat)
qed

lemma always_rejected_grow:
  assumes "unat rmax = 2 ^ j" "j < 28" "unat r < 2 ^ j"
    and test: "rmax - rmax mod maxv \<le> r"
  shows "always_rejected maxv (r OR rmax) (push_bit 1 rmax) \<longleftrightarrow> always_rejected maxv r rmax"
proof -
  have "(2::nat) ^ Suc j \<le> 2 ^ 28" using assms(2) by (intro power_increasing) simp_all
  then have u: "unat (push_bit 1 rmax) = 2 ^ Suc j"
    using assms(1) unat_push_bit_1 [of rmax] by simp
  have o: "unat (r OR rmax) = unat r + 2 ^ j" using assms(3,1) by (rule unat_or_pow)
  have g: "2 ^ Suc j - unat (r OR rmax) = 2 ^ j - unat r" using o assms(3) by simp
  have t: "2 ^ j - unat r \<le> 2 ^ j mod unat maxv"
    using test assms(1,3) unfolding reject_test_nat by simp
  have "(\<forall>k. Suc j \<le> k \<and> k \<le> 28 \<longrightarrow> 2 ^ j - unat r \<le> 2 ^ k mod unat maxv) \<longleftrightarrow>
        (\<forall>k. j \<le> k \<and> k \<le> 28 \<longrightarrow> 2 ^ j - unat r \<le> 2 ^ k mod unat maxv)"
    using t by (metis Suc_leD le_antisym not_less_eq_eq)
  then show ?thesis
    unfolding always_rejected_iff [OF u] always_rejected_iff [OF assms(1)] g .
qed

lemma always_rejected_cap:
  assumes "unat rmax = 2 ^ 28" "unat r < 2 ^ 28"
    and test: "rmax - rmax mod maxv \<le> r"
  shows "always_rejected maxv r rmax" "always_rejected maxv (drop_bit 1 (r OR rmax)) rmax"
proof -
  have t: "2 ^ 28 - unat r \<le> 2 ^ 28 mod unat maxv"
    using test assms(1,2) unfolding reject_test_nat by simp
  have k: "28 \<le> k \<and> k \<le> 28 \<longleftrightarrow> k = 28" for k :: nat by auto
  show "always_rejected maxv r rmax"
    unfolding always_rejected_iff [OF assms(1)] using t by (simp add: k)
  have o: "unat (r OR rmax) = unat r + 2 ^ 28" using assms(2,1) by (rule unat_or_pow)
  have "unat (drop_bit 1 (r OR rmax)) = (unat r + 2 ^ 28) div 2"
    using o unat_drop_bit_1 [of "r OR rmax"] by simp
  then have "2 ^ 28 - unat (drop_bit 1 (r OR rmax)) \<le> 2 ^ 28 - unat r"
    using assms(2) by simp
  then show "always_rejected maxv (drop_bit 1 (r OR rmax)) rmax"
    unfolding always_rejected_iff [OF assms(1)] using t by (simp add: k)
qed

lemma ones_forever_step:
  assumes "\<forall>n. fst (draw n s) = Inr (replicate n 1)"
  shows "\<exists>s1. secure_random_bit s = (Inr 1, s1) \<and> (\<forall>n. fst (draw n s1) = Inr (replicate n 1))"
proof -
  obtain x s1 where x: "secure_random_bit s = (x, s1)" by (cases "secure_random_bit s")
  have 1: "fst (draw (Suc 0) s) = Inr [1]" using assms [rule_format, of "Suc 0"] by simp
  then have x1: "x = Inr 1" using x by (auto split: sum.splits)
  have "fst (draw n s1) = Inr (replicate n 1)" for n
    using assms [rule_format, of "Suc n"] x x1 by (auto split: prod.splits sum.splits)
  then show ?thesis using x x1 by simp
qed

lemma not_ones_step:
  assumes "secure_random_bit s = (Inr 1, s1)"
    "fst (draw (Suc n) s) \<noteq> Inr (replicate (Suc n) 1)"
  shows "fst (draw n s1) \<noteq> Inr (replicate n 1)"
  using assms by (auto split: prod.splits sum.splits)

text \<open>The outcome of the loop, iteration by iteration.\<close>

lemma outcome_accept:
  assumes "unat rmax = 2 ^ j" "j \<le> 28"
  shows "rejection_outcome r rmax s (Inr (r, rmax), s) 0"
proof -
  have "(2::nat) ^ j \<le> 2 ^ 28" using assms(2) by (intro power_increasing) simp_all
  then show ?thesis
    by (simp add: rejection_outcome_def assms(1) MAX_RAND_BITS_def min_def)
qed

lemma outcome_fault:
  assumes "secure_random_bit s = (Inl e, s1)"
  shows "rejection_outcome r rmax s (Inl e, s1) (Suc 0)"
  using assms by (simp add: rejection_outcome_def)

lemma outcome_zero_grow:
  assumes "secure_random_bit s = (Inr 0, s1)" "unat rmax = 2 ^ j" "j < 28"
    "unat rmax1 = 2 ^ Suc j"
  shows "rejection_outcome r rmax s (Inr (r, rmax1), s1) (Suc 0)"
proof -
  have le: "(2::nat) ^ Suc j \<le> 2 ^ 28" using assms(3) by (intro power_increasing) simp_all
  have "fst (draw (Suc 0) s) = Inr [0]" "snd (draw (Suc 0) s) = s1" using assms(1) by simp_all
  then show ?thesis
    unfolding rejection_outcome_def using le
    by (simp add: assms(2,4) MAX_RAND_BITS_def min_def del: draw.simps)
qed

lemma outcome_zero_cap:
  assumes "secure_random_bit s = (Inr 0, s1)" "unat rmax = 2 ^ 28" "unat r1 = unat r div 2"
  shows "rejection_outcome r rmax s (Inr (r1, rmax), s1) (Suc 0)"
proof -
  have "fst (draw (Suc 0) s) = Inr [0]" "snd (draw (Suc 0) s) = s1" using assms(1) by simp_all
  then show ?thesis
    unfolding rejection_outcome_def
    by (simp add: assms(2,3) MAX_RAND_BITS_def del: draw.simps)
qed

lemma draw_Suc_parts:
  assumes "secure_random_bit s = (Inr b, s1)"
  shows "snd (draw (Suc k) s) = snd (draw k s1)"
    "fst (draw k s1) = Inl e \<Longrightarrow> fst (draw (Suc k) s) = Inl e"
    "fst (draw k s1) = Inr bits \<Longrightarrow> fst (draw (Suc k) s) = Inr (b # bits)"
  using assms by (auto split: prod.splits sum.splits)

lemma outcome_one_grow:
  assumes bit: "secure_random_bit s = (Inr 1, s1)" and "unat rmax = 2 ^ j"
    and u: "unat rmax1 = 2 * 2 ^ j" and or: "unat r1 = unat r + 2 ^ j"
    and o: "rejection_outcome r1 rmax1 s1 y k"
  shows "rejection_outcome r rmax s y (Suc k)"
proof -
  have s: "snd y = snd (draw (Suc k) s)"
    using o draw_Suc_parts(1) [OF bit] by (simp add: rejection_outcome_def)
  show ?thesis
  proof (cases "fst y")
    case (Inl e)
    then have "fst (draw k s1) = Inl e" using o by (simp add: rejection_outcome_def)
    then have "fst (draw (Suc k) s) = Inl e" by (rule draw_Suc_parts(2) [OF bit])
    then show ?thesis using s Inl by (simp add: rejection_outcome_def del: draw.simps)
  next
    case (Inr p)
    obtain r' rmax' where p: "p = (r', rmax')" by (cases p)
    from o Inr p obtain bits where b: "fst (draw k s1) = Inr bits"
      "\<forall>i. Suc i < k \<longrightarrow> bits ! i = 1"
      "unat rmax' = min (2 ^ MAX_RAND_BITS) (unat rmax1 * 2 ^ k)"
      "unat r' = (unat r1 + unat rmax1 * bits_value bits) div (unat rmax1 * 2 ^ k div unat rmax')"
      by (auto simp add: rejection_outcome_def)
    have d: "fst (draw (Suc k) s) = Inr (1 # bits)" using b(1) by (rule draw_Suc_parts(3) [OF bit])
    have a: "\<forall>i. Suc i < Suc k \<longrightarrow> (1 # bits) ! i = 1"
    proof (intro allI impI)
      fix i assume "Suc i < Suc k"
      then show "(1 # bits) ! i = 1" using b(2) by (cases i) simp_all
    qed
    have e: "unat rmax1 * 2 ^ k = unat rmax * 2 ^ Suc k" by (simp add: u assms(2))
    have m: "unat rmax' = min (2 ^ MAX_RAND_BITS) (unat rmax * 2 ^ Suc k)"
      using b(3) unfolding e .
    have "unat r1 + unat rmax1 * bits_value bits = unat r + unat rmax * bits_value (1 # bits)"
      by (simp add: u or assms(2) algebra_simps)
    then have v: "unat r' = (unat r + unat rmax * bits_value (1 # bits)) div
        (unat rmax * 2 ^ Suc k div unat rmax')"
      using b(4) unfolding e by simp
    show ?thesis
      unfolding rejection_outcome_def using s Inr p d a m v by (simp del: draw.simps)
  qed
qed

lemma outcome_one_cap:
  assumes bit: "secure_random_bit s = (Inr 1, s1)" and "unat rmax = 2 ^ 28"
    and dr: "unat r1 = (unat r + 2 ^ 28) div 2"
    and o: "rejection_outcome r1 rmax s1 y k"
  shows "rejection_outcome r rmax s y (Suc k)"
proof -
  have s: "snd y = snd (draw (Suc k) s)"
    using o draw_Suc_parts(1) [OF bit] by (simp add: rejection_outcome_def)
  show ?thesis
  proof (cases "fst y")
    case (Inl e)
    then have "fst (draw k s1) = Inl e" using o by (simp add: rejection_outcome_def)
    then have "fst (draw (Suc k) s) = Inl e" by (rule draw_Suc_parts(2) [OF bit])
    then show ?thesis using s Inl by (simp add: rejection_outcome_def del: draw.simps)
  next
    case (Inr p)
    obtain r' rmax' where p: "p = (r', rmax')" by (cases p)
    from o Inr p obtain bits where b: "fst (draw k s1) = Inr bits"
      "\<forall>i. Suc i < k \<longrightarrow> bits ! i = 1"
      "unat rmax' = min (2 ^ MAX_RAND_BITS) (unat rmax * 2 ^ k)"
      "unat r' = (unat r1 + unat rmax * bits_value bits) div (unat rmax * 2 ^ k div unat rmax')"
      by (auto simp add: rejection_outcome_def)
    have d: "fst (draw (Suc k) s) = Inr (1 # bits)" using b(1) by (rule draw_Suc_parts(3) [OF bit])
    have a: "\<forall>i. Suc i < Suc k \<longrightarrow> (1 # bits) ! i = 1"
    proof (intro allI impI)
      fix i assume "Suc i < Suc k"
      then show "(1 # bits) ! i = 1" using b(2) by (cases i) simp_all
    qed
    define C :: nat where "C = 2 ^ 28"
    have C: "0 < C" by (simp add: C_def)
    have rC: "unat rmax = C" by (simp add: assms(2) C_def)
    have cap: "(2::nat) ^ MAX_RAND_BITS = C" by (simp add: MAX_RAND_BITS_def C_def)
    have "C \<le> C * 2 ^ k" by simp
    then have rm: "unat rmax' = C" using b(3) unfolding rC cap by (simp add: min_def)
    have "C \<le> C * 2 ^ Suc k" by simp
    then have m: "unat rmax' = min (2 ^ MAX_RAND_BITS) (unat rmax * 2 ^ Suc k)"
      unfolding rC cap rm by (simp add: min_def)
    define V where "V = bits_value bits"
    have "C * 2 ^ k div C = 2 ^ k" using C by simp
    then have r': "unat r' = ((unat r + C) div 2 + C * V) div 2 ^ k"
      using b(4) dr unfolding rC rm V_def C_def [symmetric] by simp
    have "C * 2 ^ Suc k div C = 2 * 2 ^ k" using C by simp
    moreover have "bits_value (1 # bits) = 1 + 2 * V" by (simp add: V_def)
    ultimately have "(unat r + C * bits_value (1 # bits)) div (C * 2 ^ Suc k div C) =
        (unat r + C + 2 * (C * V)) div (2 * 2 ^ k)"
      by (simp add: algebra_simps)
    also have "\<dots> = (unat r + C + 2 * (C * V)) div 2 div 2 ^ k"
      by (simp add: div_mult2_eq)
    also have "(unat r + C + 2 * (C * V)) div 2 = (unat r + C) div 2 + C * V"
      by simp
    finally have v: "unat r' = (unat r + unat rmax * bits_value (1 # bits)) div
        (unat rmax * 2 ^ Suc k div unat rmax')"
      using r' unfolding rC rm by simp
    show ?thesis
      unfolding rejection_outcome_def using s Inr p d a m v by (simp del: draw.simps)
  qed
qed

text \<open>The loop never ends on a candidate that stays rejected, when every draw gives 1.\<close>

lemma reject_loop_diverges_aux:
  assumes "reject_loop maxv r rmax defect s = Some y"
  shows "\<not> (defect = rmax mod maxv \<and> (\<exists>j\<le>28. unat rmax = 2 ^ j \<and> unat r < 2 ^ j) \<and>
    always_rejected maxv r rmax \<and> (\<forall>n. fst (draw n s) = Inr (replicate n 1)))"
proof (rule reject_loop.raw_induct [where P = "\<lambda>maxv r rmax defect s y.
    \<not> (defect = rmax mod maxv \<and> (\<exists>j\<le>28. unat rmax = 2 ^ j \<and> unat r < 2 ^ j) \<and>
    always_rejected maxv r rmax \<and> (\<forall>n. fst (draw n s) = Inr (replicate n 1)))",
    OF _ assms], goal_cases)
  case (1 f maxv r rmax defect s y)
  show ?case
  proof
    assume a: "defect = rmax mod maxv \<and> (\<exists>j\<le>28. unat rmax = 2 ^ j \<and> unat r < 2 ^ j) \<and>
      always_rejected maxv r rmax \<and> (\<forall>n. fst (draw n s) = Inr (replicate n 1))"
    then obtain j where j: "j \<le> 28" "unat rmax = 2 ^ j" "unat r < 2 ^ j" by blast
    have df: "defect = rmax mod maxv" and ar: "always_rejected maxv r rmax"
      and on: "\<forall>n. fst (draw n s) = Inr (replicate n 1)" using a by simp_all
    have test: "rmax - rmax mod maxv \<le> r"
      using j(2,1,3) ar by (rule always_rejected_test)
    from ones_forever_step [OF on]
    obtain s1 where s1: "secure_random_bit s = (Inr 1, s1)"
      "\<forall>n. fst (draw n s1) = Inr (replicate n 1)" by blast
    have or: "unat (r OR rmax) = unat r + 2 ^ j" using j(3,2) by (rule unat_or_pow)
    show False
    proof (cases "rmax < push_bit MAX_RAND_BITS 1")
      case True
      then have j28: "j < 28" unfolding cap_test_pow [OF j(2)] .
      have "(2::nat) ^ Suc j \<le> 2 ^ 28" using j28 by (intro power_increasing) simp_all
      then have u: "unat (push_bit 1 rmax) = 2 ^ Suc j"
        using j(2) unat_push_bit_1 [of rmax] by simp
      have ar1: "always_rejected maxv (r OR rmax) (push_bit 1 rmax)"
        using always_rejected_grow [OF j(2) j28 j(3) test] ar by simp
      have "f maxv (r OR rmax) (push_bit 1 rmax) (push_bit 1 rmax mod maxv) s1 = Some y"
        using 1(2) test s1(1) True df by simp
      moreover have "\<exists>j\<le>28. unat (push_bit 1 rmax) = 2 ^ j \<and> unat (r OR rmax) < 2 ^ j"
        using u or j(3) j28 by (intro exI [of _ "Suc j"]) simp
      ultimately show False using 1(1) ar1 s1(2) by blast
    next
      case False
      then have j28: "j = 28" using j(1) unfolding cap_test_pow [OF j(2)] by simp
      have ar1: "always_rejected maxv (drop_bit 1 (r OR rmax)) rmax"
        using always_rejected_cap(2) [of rmax r maxv] j(2,3) test unfolding j28 by simp
      have "unat (drop_bit 1 (r OR rmax)) < 2 ^ j"
        using or j(3) unat_drop_bit_1 [of "r OR rmax"] by simp
      moreover have "f maxv (drop_bit 1 (r OR rmax)) rmax (rmax mod maxv) s1 = Some y"
        using 1(2) test s1(1) False df by simp
      ultimately show False using 1(1) ar1 s1(2) j(1,2) by blast
    qed
  qed
qed

text \<open>The loop ends when some draw does not give 1, and when the candidate gets accepted.\<close>

lemma reject_loop_terminates_stream:
  assumes "j \<le> 28" "unat rmax = 2 ^ j" "unat r < 2 ^ j" "0 < unat maxv" "unat maxv \<le> 2 ^ j"
    and "fst (draw n s) \<noteq> Inr (replicate n 1)"
  shows "\<exists>y. reject_loop maxv r rmax (rmax mod maxv) s = Some y"
  using assms
proof (induction n arbitrary: j r rmax s)
  case 0
  then show ?case by simp
next
  case (Suc n)
  show ?case
  proof (cases "rmax - rmax mod maxv \<le> r")
    case False
    then show ?thesis by (simp add: reject_loop_accept)
  next
    case True
    obtain x s1 where x: "secure_random_bit s = (x, s1)" by (cases "secure_random_bit s")
    show ?thesis
    proof (cases x)
      case (Inl e)
      then show ?thesis using reject_loop_fault [OF True x [unfolded Inl]] by simp
    next
      case (Inr b)
      show ?thesis
      proof (cases "b = 1")
        case False
        from reject_loop_zero_bit [OF Suc.prems(1-5) True x [unfolded Inr] False]
        show ?thesis by auto
      next
        case b1: True
        from reject_loop_one_bit [OF Suc.prems(1-3,5) True x [unfolded Inr b1]]
        obtain j' r1 rmax1 where 1: "j' \<le> 28" "unat rmax1 = 2 ^ j'" "unat r1 < 2 ^ j'"
          "unat maxv \<le> 2 ^ j'"
          "reject_loop maxv r rmax (rmax mod maxv) s = reject_loop maxv r1 rmax1 (rmax1 mod maxv) s1"
          by blast
        have "fst (draw n s1) \<noteq> Inr (replicate n 1)"
          using x [unfolded Inr b1] Suc.prems(6) by (rule not_ones_step)
        from Suc.IH [OF 1(1-3) Suc.prems(4) 1(4) this] show ?thesis using 1(5) by simp
      qed
    qed
  qed
qed

lemma reject_loop_terminates_accept:
  assumes "j \<le> 28" "unat rmax = 2 ^ j" "unat r < 2 ^ j" "0 < unat maxv" "unat maxv \<le> 2 ^ j"
    and "\<not> always_rejected maxv r rmax"
  shows "\<exists>y. reject_loop maxv r rmax (rmax mod maxv) s = Some y"
  using assms
proof (induction "28 - j" arbitrary: j r rmax s)
  case 0
  then have j: "j = 28" by simp
  have "\<not> rmax - rmax mod maxv \<le> r"
    using always_rejected_cap(1) [of rmax r maxv] "0.prems"(2,3,6) unfolding j by blast
  then show ?case by (simp add: reject_loop_accept)
next
  case (Suc n)
  then have j28: "j < 28" by simp
  then have cap: "rmax < push_bit MAX_RAND_BITS 1" unfolding cap_test_pow [OF Suc.prems(2)] .
  show ?case
  proof (cases "rmax - rmax mod maxv \<le> r")
    case False
    then show ?thesis by (simp add: reject_loop_accept)
  next
    case True
    obtain x s1 where x: "secure_random_bit s = (x, s1)" by (cases "secure_random_bit s")
    show ?thesis
    proof (cases x)
      case (Inl e)
      then show ?thesis using reject_loop_fault [OF True x [unfolded Inl]] by simp
    next
      case (Inr b)
      show ?thesis
      proof (cases "b = 1")
        case False
        from reject_loop_zero_bit [OF Suc.prems(1-5) True x [unfolded Inr] False]
        show ?thesis by auto
      next
        case b1: True
        have eq: "reject_loop maxv r rmax (rmax mod maxv) s =
            reject_loop maxv (r OR rmax) (push_bit 1 rmax) (push_bit 1 rmax mod maxv) s1"
          using reject_loop_grow_step [OF True x [unfolded Inr b1] cap] by simp
        have "(2::nat) ^ Suc j \<le> 2 ^ 28" using j28 by (intro power_increasing) simp_all
        then have u: "unat (push_bit 1 rmax) = 2 ^ Suc j"
          using Suc.prems(2) unat_push_bit_1 [of rmax] by simp
        have or: "unat (r OR rmax) < 2 ^ Suc j"
          using unat_or_pow [OF Suc.prems(3,2)] Suc.prems(3) by simp
        have nar: "\<not> always_rejected maxv (r OR rmax) (push_bit 1 rmax)"
          using always_rejected_grow [OF Suc.prems(2) j28 Suc.prems(3) True] Suc.prems(6) by simp
        have n: "n = 28 - Suc j" using Suc.hyps(2) by simp
        have j1: "Suc j \<le> 28" using j28 by simp
        have mv: "unat maxv \<le> 2 ^ Suc j" using Suc.prems(5) by simp
        from Suc.hyps(1) [OF n j1 u or Suc.prems(4) mv nar, of s1] show ?thesis
          using eq by simp
      qed
    qed
  qed
qed

lemma reject_loop_outcome_aux:
  assumes "reject_loop maxv r rmax defect s = Some y"
  shows "\<forall>j. j \<le> 28 \<and> unat rmax = 2 ^ j \<and> unat r < 2 ^ j \<and> 0 < unat maxv \<and> unat maxv \<le> 2 ^ j \<and>
      defect = rmax mod maxv \<longrightarrow>
    (\<not> rmax - defect \<le> r \<longrightarrow> y = (Inr (r, rmax), s)) \<and> (\<exists>k. rejection_outcome r rmax s y k)"
proof (rule reject_loop.raw_induct [where P = "\<lambda>maxv r rmax defect s y.
    \<forall>j. j \<le> 28 \<and> unat rmax = 2 ^ j \<and> unat r < 2 ^ j \<and> 0 < unat maxv \<and> unat maxv \<le> 2 ^ j \<and>
      defect = rmax mod maxv \<longrightarrow>
    (\<not> rmax - defect \<le> r \<longrightarrow> y = (Inr (r, rmax), s)) \<and> (\<exists>k. rejection_outcome r rmax s y k)",
    OF _ assms], goal_cases)
  case (1 f maxv r rmax defect s y)
  show ?case
  proof (intro allI impI)
    fix j
    assume a: "j \<le> 28 \<and> unat rmax = 2 ^ j \<and> unat r < 2 ^ j \<and> 0 < unat maxv \<and>
      unat maxv \<le> 2 ^ j \<and> defect = rmax mod maxv"
    then have j: "j \<le> 28" "unat rmax = 2 ^ j" "unat r < 2 ^ j" "0 < unat maxv"
      "unat maxv \<le> 2 ^ j" and df: "defect = rmax mod maxv" by simp_all
    show "(\<not> rmax - defect \<le> r \<longrightarrow> y = (Inr (r, rmax), s)) \<and>
      (\<exists>k. rejection_outcome r rmax s y k)"
    proof (cases "rmax - defect \<le> r")
      case False
      then have y: "y = (Inr (r, rmax), s)" using 1(2) by simp
      then show ?thesis using False outcome_accept [OF j(2,1), of r s] by blast
    next
      case True
      obtain x s1 where x: "secure_random_bit s = (x, s1)" by (cases "secure_random_bit s")
      have "\<exists>k. rejection_outcome r rmax s y k"
      proof (cases x)
        case (Inl e)
        then have "y = (Inl e, s1)" using 1(2) True x by simp
        then show ?thesis using outcome_fault [OF x [unfolded Inl], of r rmax] by blast
      next
        case (Inr b)
        from secure_random_bit_01 [OF x [unfolded Inr]] have b01: "b = 0 \<or> b = 1" .
        show ?thesis
        proof (cases "rmax < push_bit MAX_RAND_BITS 1")
          case cap: True
          then have j28: "j < 28" unfolding cap_test_pow [OF j(2)] .
          have "(2::nat) ^ Suc j \<le> 2 ^ 28" using j28 by (intro power_increasing) simp_all
          then have u: "unat (push_bit 1 rmax) = 2 ^ Suc j"
            using j(2) unat_push_bit_1 [of rmax] by simp
          define r1 where "r1 = (if b = 1 then r OR rmax else r)"
          have f: "f maxv r1 (push_bit 1 rmax) (push_bit 1 rmax mod maxv) s1 = Some y"
            using 1(2) True x Inr cap by (simp add: r1_def)
          have r1lt: "unat r1 < 2 ^ Suc j"
            using j(3) unat_or_pow [OF j(3,2)] by (simp add: r1_def)
          from 1(1) [OF f, rule_format, of "Suc j"] u r1lt j(4,5) j28
          have ih: "\<not> push_bit 1 rmax - push_bit 1 rmax mod maxv \<le> r1 \<longrightarrow>
              y = (Inr (r1, push_bit 1 rmax), s1)"
            "\<exists>k. rejection_outcome r1 (push_bit 1 rmax) s1 y k"
            by simp_all
          show ?thesis
          proof (cases "b = 1")
            case True
            from ih(2) obtain k where k: "rejection_outcome r1 (push_bit 1 rmax) s1 y k" by blast
            have u2: "unat (push_bit 1 rmax) = 2 * 2 ^ j" using u by simp
            have or: "unat r1 = unat r + 2 ^ j"
              using True unat_or_pow [OF j(3,2)] by (simp add: r1_def)
            from outcome_one_grow [OF x [unfolded Inr True] j(2) u2 or k] show ?thesis by blast
          next
            case False
            then have b0: "b = 0" and r1: "r1 = r" using b01 by (simp_all add: r1_def)
            have "\<not> push_bit 1 rmax - push_bit 1 rmax mod maxv \<le> r"
              unfolding reject_test_nat u power_Suc
              by (rule accept_after_doubling) (use j in simp_all)
            then have "y = (Inr (r, push_bit 1 rmax), s1)" using ih(1) r1 by simp
            then show ?thesis
              using outcome_zero_grow [OF x [unfolded Inr b0] j(2) j28 u, of r] by blast
          qed
        next
          case cap: False
          then have j28: "j = 28" using j(1) unfolding cap_test_pow [OF j(2)] by simp
          define r1 where "r1 = drop_bit 1 (if b = 1 then r OR rmax else r)"
          have f: "f maxv r1 rmax defect s1 = Some y"
            using 1(2) True x Inr cap by (simp add: r1_def)
          have ur1: "unat r1 = (unat r + 2 ^ j * unat b) div 2"
            using b01 unat_or_pow [OF j(3,2)] unat_drop_bit_1 [of "r OR rmax"] unat_drop_bit_1 [of r]
            by (auto simp add: r1_def)
          have r1lt: "unat r1 < 2 ^ j" using ur1 j(3) b01 by auto
          from 1(1) [OF f, rule_format, of j] j r1lt df
          have ih: "\<not> rmax - defect \<le> r1 \<longrightarrow> y = (Inr (r1, rmax), s1)"
            "\<exists>k. rejection_outcome r1 rmax s1 y k"
            by simp_all
          show ?thesis
          proof (cases "b = 1")
            case True
            from ih(2) obtain k where k: "rejection_outcome r1 rmax s1 y k" by blast
            have dr: "unat r1 = (unat r + 2 ^ 28) div 2" using ur1 True j28 by simp
            from outcome_one_cap [OF x [unfolded Inr True] j(2) [unfolded j28] dr k]
            show ?thesis by blast
          next
            case False
            then have b0: "b = 0" using b01 by simp
            have dr: "unat r1 = unat r div 2" using ur1 b0 by simp
            have "\<not> unat rmax - unat rmax mod unat maxv \<le> unat r div 2"
              unfolding j(2) by (rule accept_after_halving) (use j in simp_all)
            then have "\<not> rmax - defect \<le> r1"
              unfolding df reject_test_nat dr .
            then have "y = (Inr (r1, rmax), s1)" using ih(1) by simp
            then show ?thesis
              using outcome_zero_cap [OF x [unfolded Inr b0] j(2) [unfolded j28] dr] by blast
          qed
        qed
      qed
      then show ?thesis using True by simp
    qed
  qed
qed

text \<open>
  Claim C3 as stated fails: \<open>max = 3\<close> is within the width cap, the device \<open>ones\<close>
  gives an infinite stream of bits (all 1), the first loop ends with \<open>r = 3\<close> and
  \<open>rmax = 4\<close>, and the rejection loop started there never terminates: before the cap
  \<open>r = rmax - 1\<close> is rejected at every width, and at the cap the shift brings \<open>r\<close>
  back to \<open>2^28 - 1\<close>, which is rejected again.
\<close>

theorem rejection_diverges_on_ones:
  "(3::u32) \<le> push_bit MAX_RAND_BITS 1 \<and>
   (\<forall>n. fst (draw n (initial ones)) = Inr (replicate n 1)) \<and>
   (\<exists>s1. grow_loop 3 0 1 (initial ones) = Some (Inr (3, 4), s1) \<and>
      reject_loop 3 3 4 (4 mod 3) s1 = None) \<and>
   secure_random 3 (initial ones) = None"
proof -
  from ones_step ones_initial
  obtain s1 where s1: "secure_random_bit (initial ones) = (Inr 1, s1)" "valid_state s1"
    "device s1 = ones" "set (pending s1) \<subseteq> {1}" by blast
  from ones_step [OF s1(2-4)]
  obtain s2 where s2: "secure_random_bit s1 = (Inr 1, s2)" "valid_state s2"
    "device s2 = ones" "set (pending s2) \<subseteq> {1}" by blast
  have "grow_loop 3 0 1 (initial ones) = grow_loop 3 1 2 s1"
    using s1(1) by (subst grow_loop.simps) simp
  also have "\<dots> = grow_loop 3 3 4 s2"
    using s2(1) by (subst grow_loop.simps) simp
  also have "\<dots> = Some (Inr (3, 4), s2)"
    by (subst grow_loop.simps) simp
  finally have g: "grow_loop 3 0 1 (initial ones) = Some (Inr (3, 4), s2)" .
  have "\<exists>j. 2 \<le> j \<and> j \<le> 28 \<and> unat (4::u32) = 2 ^ j \<and> unat (3::u32) = 2 ^ j - 1"
    by (intro exI [of _ 2]) simp
  then have "reject_loop 3 3 4 (4 mod 3) s2 \<noteq> Some y" for y
    using reject_loop_ones_aux [of 3 3 4 "4 mod 3" s2 y] s2(2-4) by blast
  then have r: "reject_loop 3 3 4 (4 mod 3) s2 = None"
    by (meson option.exhaust)
  then have "secure_random 3 (initial ones) = None"
    using g by (simp add: secure_random_def)
  moreover have "(3::u32) \<le> push_bit MAX_RAND_BITS 1" by (simp add: MAX_RAND_BITS_def)
  ultimately show ?thesis using g r ones_draw ones_initial by blast
qed

text \<open>
  Claim C3, amended.  Let \<open>1 \<le> max \<le> 2^MAX_RAND_BITS\<close> and let the first loop have
  ended with \<open>r\<close>, \<open>rmax\<close> in state \<open>s1\<close>.  The rejection loop fails to terminate in
  exactly one case: every draw from \<open>s1\<close> on gives the bit 1, for ever, and the
  candidate stays rejected at every width up to the cap (\<open>always_rejected\<close>).  On every
  other stream it terminates after finitely many draws \<open>k\<close>, in the state these draws
  leave: a draw ended the process, or the loop returns \<open>r'\<close>, \<open>rmax'\<close> after bits that
  are all 1 but possibly the last.  The width grows by one per draw up to the cap and
  then stays: \<open>rmax' = min (2^MAX_RAND_BITS) (rmax * 2^k)\<close>; for every draw made at the
  cap the least significant bit of \<open>r\<close> is shifted out instead:
  \<open>r' = (r + rmax * bits) div (rmax * 2^k div rmax')\<close>.  The \<open>r'\<close> returned is accepted,
  and \<open>secure_random\<close> returns \<open>r' / (rmax' / max)\<close>.  Two cases in particular: when
  the \<open>i+1\<close>-th bit drawn is not 1, the loop returns after at most \<open>i+1\<close> draws; and
  when \<open>max\<close> is a power of two, the loop returns at once, without a draw.
\<close>

theorem rejection_loop_termination:
  assumes "maxv \<noteq> 0" "maxv \<le> push_bit MAX_RAND_BITS 1"
    and g: "grow_loop maxv 0 1 s = Some (Inr (r, rmax), s1)"
  shows "(reject_loop maxv r rmax (rmax mod maxv) s1 = None \<longleftrightarrow>
            always_rejected maxv r rmax \<and> (\<forall>n. fst (draw n s1) = Inr (replicate n 1))) \<and>
         (\<forall>y. reject_loop maxv r rmax (rmax mod maxv) s1 = Some y \<longrightarrow>
            (\<exists>k. rejection_outcome r rmax s1 y k)) \<and>
         (\<forall>r' rmax' s'. reject_loop maxv r rmax (rmax mod maxv) s1 = Some (Inr (r', rmax'), s') \<longrightarrow>
            r' < rmax' - rmax' mod maxv \<and>
            secure_random maxv s = Some (Inr (r' div (rmax' div maxv)), s')) \<and>
         (\<forall>i bits s2. draw (Suc i) s1 = (Inr bits, s2) \<and> bits ! i \<noteq> 1 \<longrightarrow>
            (\<exists>k\<le>Suc i. \<exists>r' rmax'.
               reject_loop maxv r rmax (rmax mod maxv) s1 = Some (Inr (r', rmax'), snd (draw k s1)))) \<and>
         ((\<exists>i. unat maxv = 2 ^ i) \<longrightarrow>
            reject_loop maxv r rmax (rmax mod maxv) s1 = Some (Inr (r, rmax), s1))"
proof -
  from grow_loop_result [OF g assms(1)]
  obtain j where j: "j < 32" "unat rmax = 2 ^ j" "unat r < 2 ^ j" "unat maxv \<le> 2 ^ j"
    "j = 0 \<or> 2 ^ j < 2 * unat maxv" by blast
  have m28: "unat maxv \<le> 2 ^ 28"
    using assms(2) by (simp add: word_le_nat_alt unat_cap del: push_bit_of_1)
  have j28: "j \<le> 28"
  proof (cases "j = 0")
    case False
    then have "(2::nat) ^ j < 2 ^ 29" using j(5) m28 by simp
    then have "j < 29" by (rule power_less_imp_less_exp [rotated]) simp
    then show ?thesis by simp
  qed simp
  have pos: "0 < unat maxv" using assms(1) by (simp add: unat_gt_0)
  let ?loop = "reject_loop maxv r rmax (rmax mod maxv) s1"
  let ?stuck = "always_rejected maxv r rmax \<and> (\<forall>n. fst (draw n s1) = Inr (replicate n 1))"
  have 1: "?loop = None \<longleftrightarrow> ?stuck"
  proof
    assume n: "?loop = None"
    show ?stuck
    proof (rule ccontr)
      assume "\<not> ?stuck"
      then consider "\<not> always_rejected maxv r rmax"
        | n where "fst (draw n s1) \<noteq> Inr (replicate n 1)" by blast
      then have "\<exists>y. ?loop = Some y"
      proof cases
        case 1
        then show ?thesis by (rule reject_loop_terminates_accept [OF j28 j(2,3) pos j(4)])
      next
        case 2
        then show ?thesis by (rule reject_loop_terminates_stream [OF j28 j(2,3) pos j(4)])
      qed
      then show False using n by simp
    qed
  next
    assume st: ?stuck
    have "?loop \<noteq> Some y" for y
      using reject_loop_diverges_aux [of maxv r rmax "rmax mod maxv" s1 y] st j28 j(2,3) by blast
    then show "?loop = None" by (meson option.exhaust)
  qed
  have 2: "\<exists>k. rejection_outcome r rmax s1 y k" if "?loop = Some y" for y
    using reject_loop_outcome_aux [OF that] j28 j(2,3,4) pos by blast
  have 3: "r' < rmax' - rmax' mod maxv \<and>
      secure_random maxv s = Some (Inr (r' div (rmax' div maxv)), s')"
    if l: "?loop = Some (Inr (r', rmax'), s')" for r' rmax' s'
  proof -
    from reject_loop_exit [OF l] have a: "r' < rmax' - rmax' mod maxv" .
    with div_range [of r' rmax' maxv] have "rmax' div maxv \<noteq> 0" by blast
    then show ?thesis using a g l assms(1) by (simp add: secure_random_def)
  qed
  have 4: "\<exists>k\<le>Suc i. \<exists>r' rmax'. ?loop = Some (Inr (r', rmax'), snd (draw k s1))"
    if "draw (Suc i) s1 = (Inr bits, s2)" "bits ! i \<noteq> 1" for i bits s2
    using that by (rule reject_loop_stops [OF j28 j(2,3) pos j(4)])
  have 5: "?loop = Some (Inr (r, rmax), s1)" if "unat maxv = 2 ^ i" for i
  proof -
    have "(2::nat) ^ i \<le> 2 ^ j" using j(4) that by simp
    then have "i \<le> j" by (rule power_le_imp_le_exp [rotated]) simp
    then have "(2::nat) ^ i dvd 2 ^ j" by (rule le_imp_power_dvd)
    then have "unat (rmax mod maxv) = 0" using j(2) that by (simp add: unat_mod)
    then have "rmax mod maxv = 0" by (simp add: unat_eq_0)
    moreover have "\<not> rmax \<le> r" using j(2,3) by (simp add: word_le_nat_alt)
    ultimately show ?thesis using reject_loop_accept [of rmax "rmax mod maxv" r maxv s1] by simp
  qed
  show ?thesis
  proof (intro conjI)
    show "?loop = None \<longleftrightarrow> ?stuck" by (rule 1)
  next
    show "\<forall>y. ?loop = Some y \<longrightarrow> (\<exists>k. rejection_outcome r rmax s1 y k)"
      using 2 by blast
  next
    show "\<forall>r' rmax' s'. ?loop = Some (Inr (r', rmax'), s') \<longrightarrow>
        r' < rmax' - rmax' mod maxv \<and>
        secure_random maxv s = Some (Inr (r' div (rmax' div maxv)), s')"
      using 3 by blast
  next
    show "\<forall>i bits s2. draw (Suc i) s1 = (Inr bits, s2) \<and> bits ! i \<noteq> 1 \<longrightarrow>
        (\<exists>k\<le>Suc i. \<exists>r' rmax'. ?loop = Some (Inr (r', rmax'), snd (draw k s1)))"
      using 4 by blast
  next
    show "(\<exists>i. unat maxv = 2 ^ i) \<longrightarrow> ?loop = Some (Inr (r, rmax), s1)"
      using 5 by blast
  qed
qed

theorem rejection_loop_termination_witness:
  "\<exists>s1 r' s'.
     grow_loop 3 0 1 (initial cap_device) = Some (Inr (3, 4), s1) \<and>
     reject_loop 3 3 4 (4 mod 3) s1 = Some (Inr (r', 2 ^ MAX_RAND_BITS), s') \<and>
     (\<exists>k. rejection_outcome 3 4 s1 (Inr (r', 2 ^ MAX_RAND_BITS), s') k) \<and>
     secure_random 3 (initial cap_device) = Some (Inr 1, s')"
proof -
  define s1 where "s1 = snd (the (grow_loop 3 0 1 (initial cap_device)))"
  have "map_option fst (grow_loop 3 0 1 (initial cap_device)) = Some (Inr (3, 4))"
    by code_simp
  then have g: "grow_loop 3 0 1 (initial cap_device) = Some (Inr (3, 4), s1)"
    by (cases "grow_loop 3 0 1 (initial cap_device)") (auto simp: s1_def)
  have "map_option fst (reject_loop 3 3 4 (4 mod 3)
      (snd (the (grow_loop 3 0 1 (initial cap_device))))) = Some (Inr (134217727, 268435456))"
    by code_simp
  then obtain s' where l: "reject_loop 3 3 4 (4 mod 3) s1 = Some (Inr (134217727, 268435456), s')"
    unfolding s1_def [symmetric] by (cases "reject_loop 3 3 4 (4 mod 3) s1") auto
  have 3: "(3::u32) \<noteq> 0" "(3::u32) \<le> push_bit MAX_RAND_BITS 1"
    by (simp_all add: MAX_RAND_BITS_def)
  from rejection_loop_termination [OF 3 g] l
  have "\<exists>k. rejection_outcome 3 4 s1 (Inr (134217727, 268435456), s') k"
    "secure_random 3 (initial cap_device) = Some (Inr (134217727 div (268435456 div 3)), s')"
    by blast+
  moreover have "(134217727 :: u32) div (268435456 div 3) = 1" by simp
  moreover have "(2 :: u32) ^ MAX_RAND_BITS = 268435456" by (simp add: MAX_RAND_BITS_def)
  ultimately show ?thesis using g l by auto
qed

subsection \<open>The distribution of the values\<close>

text \<open>
  Claim C1, at an input where the code departs from it: \<open>max = 3\<close>.  The device gives
  the byte \<open>b\<close> first, so the first three bits drawn are the three low bits of \<open>b\<close>,
  and \<open>b = 0, ..., 7\<close> are the eight equally likely cases of three fair bits.  Listed
  are the value returned and the number of bits drawn (\<open>bcnt\<close>).  The value 1 is
  returned within three bits in three of the eight cases (\<open>b = 1, 3, 5\<close>), so with
  probability at least \<open>3/8 > 1/3\<close>; the values 0 and 2 are returned within three bits
  in two cases each.  A candidate rejected at width 2 (\<open>r = 3\<close>) is kept and extended
  to \<open>r = 3\<close> of width 3, which is accepted and mapped to \<open>3 / (8 / 3) = 1\<close>.
\<close>

theorem sampler_bias:
  "map (\<lambda>b. map_option (\<lambda>(v, s). (v, bcnt s)) (secure_random 3 (initial (first_byte b))))
     [0, 1, 2, 3, 4, 5, 6, 7] =
   [Some (Inr 0, 2), Some (Inr 1, 2), Some (Inr 2, 2), Some (Inr 1, 3),
    Some (Inr 0, 2), Some (Inr 1, 2), Some (Inr 2, 2), Some (Inr 1, 4)]"
  by code_simp

section \<open>The sampler at the edges of its range\<close>

text \<open>
  Claim C6.  For every state of the entropy buffer, \<open>secure_random(1)\<close> returns 0 and
  leaves the state as it was: neither loop runs its body (each returns at its first
  test, with the state it was given), so no bit is drawn and no read is made.
\<close>

theorem secure_random_one:
  "secure_random 1 s = Some (Inr 0, s) \<and>
   grow_loop 1 0 1 s = Some (Inr (0, 1), s) \<and>
   reject_loop 1 0 1 (1 mod 1) s = Some (Inr (0, 1), s)"
  by (simp add: secure_random_def grow_loop.simps reject_loop.simps)

text \<open>
  Claim C9.  For every state of the entropy buffer, \<open>secure_random(0)\<close> ends the process
  with the diagnostic on \<open>stderr\<close> and exit status 1; it returns no value, and the
  state at the exit is the state of the call: no bit has been drawn.
\<close>

theorem secure_random_zero:
  "secure_random 0 s =
     Some (Inl (Exit (Stderr ''secure_random() called with max == 0\<newline>'') 1), s)"
  by (simp add: secure_random_def)

section \<open>Properties of the shuffle\<close>

lemma less_Suc_word:
  fixes i j :: u32
  assumes "j < i + 1"
  shows "unat j \<le> unat i"
proof -
  have "unat (i + 1) \<le> unat i + 1"
    by (simp add: unat_word_ariths)
  then show ?thesis using assms by (simp add: word_less_nat_alt)
qed




section \<open>Valid states and the undefined cases\<close>

text \<open>
  The state at program start is valid, and every call leaves a valid state, whether it
  returns or ends the process.  From a valid state the undefined cases of the model (a
  word index outside the buffer, a division by zero, a card index outside a deck of 52)
  are never reached.
\<close>

lemma valid_state_initial: "valid_state (initial dev)"
  by (simp add: valid_state_def initial_def BUFSZ_def)

lemma secure_random_bit_cases:
  assumes "valid_state s"
  shows "(\<exists>d s'. secure_random_bit s = (Inl (Exit d 1), s') \<and> valid_state s') \<or>
         (\<exists>b s'. secure_random_bit s = (Inr b, s') \<and> valid_state s')"
proof (cases "winx s = max_winx s")
  case False
  then have "winx s < max_winx s" using assms by (auto simp: valid_state_def)
  from secure_random_bit_buffered [OF assms this] show ?thesis by blast
next
  case True
  show ?thesis
  proof (cases "device s (reads s)")
    case Open_Fails
    then show ?thesis using True assms
      by (simp add: secure_random_bit_def refill_def sys_open_def Let_def valid_state_def)
  next
    case Read_Fails
    then show ?thesis using True assms
      by (simp add: secure_random_bit_def refill_def sys_open_def sys_read_def Let_def valid_state_def)
  next
    case (Read_Gives bs)
    show ?thesis
    proof (cases "4 \<le> length bs")
      case True
      from secure_random_bit_refilled [OF assms \<open>winx s = max_winx s\<close> Read_Gives True]
      show ?thesis by blast
    next
      case False
      then show ?thesis using \<open>winx s = max_winx s\<close> assms Read_Gives
        by (simp add: secure_random_bit_def refill_def sys_open_def sys_read_def Let_def
            valid_state_def BUFSZ_def)
    qed
  qed
qed


lemma grow_loop_valid:
  assumes "grow_loop maxv r rmax s = Some y"
  shows "valid_state s \<longrightarrow> valid_state (snd y) \<and> fst y \<noteq> Inl Undefined_Behaviour"
proof (rule grow_loop.raw_induct [where P = "\<lambda>maxv r rmax s y.
    valid_state s \<longrightarrow> valid_state (snd y) \<and> fst y \<noteq> Inl Undefined_Behaviour", OF _ assms],
    goal_cases)
  case (1 f maxv r rmax s y)
  show ?case
  proof
    assume v: "valid_state s"
    show "valid_state (snd y) \<and> fst y \<noteq> Inl Undefined_Behaviour"
    proof (cases "rmax < maxv")
      case False
      then show ?thesis using 1(2) v by auto
    next
      case True
      from secure_random_bit_cases [OF v] show ?thesis
      proof (elim disjE exE conjE)
        fix d s' assume "secure_random_bit s = (Inl (Exit d 1), s')" "valid_state s'"
        then show ?thesis using 1(2) True by auto
      next
        fix b s' assume b: "secure_random_bit s = (Inr b, s')" "valid_state s'"
        then have "f maxv (if b = 1 then r OR rmax else r) (push_bit 1 rmax) s' = Some y"
          using 1(2) True by simp
        from 1(1) [OF this] b(2) show ?thesis by simp
      qed
    qed
  qed
qed

lemma reject_loop_valid:
  assumes "reject_loop maxv r rmax defect s = Some y"
  shows "valid_state s \<longrightarrow> valid_state (snd y) \<and> fst y \<noteq> Inl Undefined_Behaviour"
proof (rule reject_loop.raw_induct [where P = "\<lambda>maxv r rmax defect s y.
    valid_state s \<longrightarrow> valid_state (snd y) \<and> fst y \<noteq> Inl Undefined_Behaviour", OF _ assms],
    goal_cases)
  case (1 f maxv r rmax defect s y)
  show ?case
  proof
    assume v: "valid_state s"
    show "valid_state (snd y) \<and> fst y \<noteq> Inl Undefined_Behaviour"
    proof (cases "rmax - defect \<le> r")
      case False
      then show ?thesis using 1(2) v by auto
    next
      case True
      from secure_random_bit_cases [OF v] show ?thesis
      proof (elim disjE exE conjE)
        fix d s' assume "secure_random_bit s = (Inl (Exit d 1), s')" "valid_state s'"
        then show ?thesis using 1(2) True by auto
      next
        fix b s' assume b: "secure_random_bit s = (Inr b, s')" "valid_state s'"
        then obtain r1 rmax1 defect1 where "f maxv r1 rmax1 defect1 s' = Some y"
          using 1(2) True by (auto simp: Let_def split: if_splits)
        from 1(1) [OF this] b(2) show ?thesis by simp
      qed
    qed
  qed
qed

lemma secure_random_valid:
  assumes "secure_random maxv s = Some y" "valid_state s"
  shows "valid_state (snd y) \<and> fst y \<noteq> Inl Undefined_Behaviour"
proof (cases "maxv = 0")
  case True
  then show ?thesis using assms by (auto simp: secure_random_def)
next
  case False
  then obtain x1 s1 where g: "grow_loop maxv 0 1 s = Some (x1, s1)"
    using assms(1) by (auto simp: secure_random_def split: option.splits)
  from grow_loop_valid [OF g] assms(2)
  have v1: "valid_state s1" "x1 \<noteq> Inl Undefined_Behaviour" by simp_all
  show ?thesis
  proof (cases x1)
    case (Inl e)
    then show ?thesis using assms(1) False g v1 by (auto simp: secure_random_def)
  next
    case (Inr p)
    obtain r rmax where p: "p = (r, rmax)" by (cases p)
    then obtain x2 s2 where rj: "reject_loop maxv r rmax (rmax mod maxv) s1 = Some (x2, s2)"
      using assms(1) False g Inr by (auto simp: secure_random_def split: option.splits)
    from reject_loop_valid [OF rj] v1(1)
    have v2: "valid_state s2" "x2 \<noteq> Inl Undefined_Behaviour" by simp_all
    show ?thesis
    proof (cases x2)
      case (Inl e)
      then show ?thesis using assms(1) False g \<open>x1 = Inr p\<close> p rj v2
        by (auto simp: secure_random_def)
    next
      case q: (Inr q)
      obtain r2 rmax2 where q2: "q = (r2, rmax2)" by (cases q)
      from reject_loop_exit [OF rj [unfolded q q2]] div_range [of r2 rmax2 maxv]
      have "rmax2 div maxv \<noteq> 0" by blast
      then show ?thesis using assms(1) False g Inr p rj q q2 v2
        by (auto simp: secure_random_def)
    qed
  qed
qed

lemma shuffle_loop_valid:
  assumes "shuffle_loop i deck s = Some y" "valid_state s" "unat i < length deck"
  shows "valid_state (snd y) \<and> fst y \<noteq> Inl Undefined_Behaviour"
  using assms
proof (induction i deck s rule: shuffle_loop.induct)
  case (1 i deck s)
  show ?case
  proof (cases "0 < i")
    case False
    then show ?thesis using "1.prems" by (auto simp: shuffle_loop.simps)
  next
    case True
    then obtain x s1 where sr: "secure_random (i + 1) s = Some (x, s1)"
      using "1.prems"(1)
      by (subst (asm) shuffle_loop.simps) (auto split: option.splits prod.splits sum.splits)
    from secure_random_valid [OF sr "1.prems"(2)]
    have v1: "valid_state s1" "x \<noteq> Inl Undefined_Behaviour" by simp_all
    show ?thesis
    proof (cases x)
      case (Inl e)
      then show ?thesis using "1.prems"(1) True sr v1
        by (subst (asm) shuffle_loop.simps) auto
    next
      case (Inr j)
      from secure_random_less [OF sr [unfolded Inr]] have "unat j \<le> unat i" by (rule less_Suc_word)
      then have jl: "unat j < length deck" using "1.prems"(3) by simp
      define deck1 where "deck1 = deck[unat i := deck ! unat j, unat j := deck ! unat i]"
      have rec: "shuffle_loop (i - 1) deck1 s1 = Some y"
        using "1.prems" True sr Inr jl by (subst (asm) shuffle_loop.simps) (simp add: deck1_def)
      have "unat (i - 1) \<le> unat i" using True by (simp add: unat_minus_one word_greater_zero_iff)
      then have len1: "unat (i - 1) < length deck1" using "1.prems"(3) by (simp add: deck1_def)
      show ?thesis
        using "1.IH" [OF True sr [unfolded Inr] refl refl _ rec [unfolded deck1_def] v1(1) len1 [unfolded deck1_def]]
          "1.prems"(3) jl by simp
    qed
  qed
qed

lemma shuffle_deck_defined:
  assumes "shuffle_deck deck s = Some (x, s')" "valid_state s" "length deck = DECK_SIZE"
  shows "valid_state s' \<and> x \<noteq> Inl Undefined_Behaviour"
proof -
  have 51: "word_of_nat (DECK_SIZE - 1) = (51 :: u32)" by (simp add: DECK_SIZE_def)
  have "unat (51 :: u32) < length deck" using assms(3) by (simp add: DECK_SIZE_def)
  from shuffle_loop_valid [OF assms(1) [unfolded shuffle_deck_def 51] assms(2) this]
  show ?thesis by simp
qed

end
